theory Spec2Isabelle
  imports Main
begin

section \<open>Data model\<close>

text \<open>
  A \<open>Position\<close> is the template string \<^verbatim>\<open>`${x}-${y}`\<close>. The decimal rendering of a pair
  of integers is injective, so the key is modelled by the pair itself; every coordinate
  is an integer (\<open>int\<close>), the spec's "exact-integer-pair semantics".
\<close>

type_synonym Position = "int \<times> int"

text \<open>\<^verbatim>\<open>const deltaMap\<close>, in the order of the source (both files).\<close>

definition deltaMap :: "(int \<times> int) list" where
  "deltaMap = [(-1, 1), (-1, 0), (-1, -1), (0, -1), (0, 1), (1, 1), (1, 0), (1, -1)]"

text \<open>\<^verbatim>\<open>class MineSlot\<close>.\<close>

record MineSlot =
  hasMine :: bool
  nearbyMine :: nat
  reveal :: bool

text \<open>\<^verbatim>\<open>new MineSlot(hasMine)\<close>: the two other fields take their initialisers.\<close>

definition new_MineSlot :: "bool \<Rightarrow> MineSlot" where
  "new_MineSlot h = \<lparr>hasMine = h, nearbyMine = 0, reveal = False\<rparr>"

datatype game_state = Playing | Dead | Win

text \<open>
  The errors of the program. The source throws a plain \<^verbatim>\<open>Error\<close> with a message; the
  constructors carry the names of the spec's taxonomy:
  \<^item> \<open>OutOfBounds\<close>: \<^verbatim>\<open>Error("board too small or index negative!")\<close>;
  \<^item> \<open>InvalidConfiguration\<close>: \<^verbatim>\<open>Error("Too many mines")\<close>;
  \<^item> \<open>InternalInvariant\<close>: \<^verbatim>\<open>Error("There is mine at " + position)\<close>;
  \<^item> \<open>TypeError\<close>: the runtime's error when a field of \<^verbatim>\<open>this.slots[position]\<close> is read or
    written and the position holds no slot (\<^verbatim>\<open>undefined\<close>);
  \<^item> \<open>RangeError\<close>: the runtime's error when an array is given a length above \<open>2^32 - 1\<close>.
\<close>

datatype error = OutOfBounds | InvalidConfiguration | InternalInvariant | TypeError | RangeError

text \<open>
  \<^verbatim>\<open>class MineBoard\<close>. The fields that \<^verbatim>\<open>src/main.ts\<close> and the second source file
  (\<^verbatim>\<open>src/unnamed/part_000\<close>) share form the base record; each file's class extends it.
\<close>

record MineBoard =
  slots :: "Position \<rightharpoonup> MineSlot"
  state :: game_state
  revealCount :: nat
  width :: int
  height :: int
  fieldInited :: bool

text \<open>\<^verbatim>\<open>src/main.ts\<close>: the board with a target mine count.\<close>

record CountBoard = MineBoard +
  mineCount :: int

text \<open>
  \<^verbatim>\<open>src/unnamed/part_000\<close>: the board with a per-position predicate. The default
  \<^verbatim>\<open>randomer\<close> draws from \<^verbatim>\<open>Math.random\<close>; \<^verbatim>\<open>initField\<close> asks it once for each position,
  so every run of it is the run of some function of the position.
\<close>

record PredBoard = MineBoard +
  totalSpaceCount :: nat
  randomer :: "int \<Rightarrow> int \<Rightarrow> bool"

record RevealEvent =
  position :: Position
  ev_nearbyMine :: nat

record ClickResult =
  res_state :: game_state
  reveals :: "RevealEvent list"

section \<open>Operations shared by both source files\<close>

definition isVaildPosition :: "'a MineBoard_scheme \<Rightarrow> int \<Rightarrow> int \<Rightarrow> bool" where
  "isVaildPosition b x y = (\<not> (x < 0 \<or> x \<ge> width b \<or> y < 0 \<or> y \<ge> height b))"

text \<open>
  \<^verbatim>\<open>nearByMine(i, j)\<close>: the loop over \<open>deltaMap\<close> with its counter. A position that holds
  no slot is skipped (\<^verbatim>\<open>this.slots[position] && ...\<close>); the bounds are not looked at.
\<close>

definition nearByMine :: "(Position \<rightharpoonup> MineSlot) \<Rightarrow> int \<Rightarrow> int \<Rightarrow> nat" where
  "nearByMine sl i j =
     foldl (\<lambda>count (x, y).
              (case sl (i + x, j + y) of
                 None \<Rightarrow> count
               | Some s \<Rightarrow> if hasMine s then count + 1 else count))
           0 deltaMap"

text \<open>The positions \<open>(i, j)\<close> in the order of the nested loops \<^verbatim>\<open>for i < width, for j < height\<close>.\<close>

definition gridPositions :: "int \<Rightarrow> int \<Rightarrow> Position list" where
  "gridPositions w h = concat (map (\<lambda>i. map (\<lambda>j. (i, j)) [0..h - 1]) [0..w - 1])"

text \<open>
  \<^verbatim>\<open>initNearbyMine()\<close> (inlined as the second loop of \<^verbatim>\<open>initField\<close> in the second file):
  \<^verbatim>\<open>this.slots[position].nearbyMine = this.nearByMine(i, j)\<close> for each grid position in
  turn. Writing to a position that holds no slot throws; the slots written before stay
  written, so the result is the store reached and the error, if any.
\<close>

fun initNearbyMine_loop ::
  "(Position \<rightharpoonup> MineSlot) \<Rightarrow> Position list \<Rightarrow> (Position \<rightharpoonup> MineSlot) \<times> error option" where
  "initNearbyMine_loop sl [] = (sl, None)"
| "initNearbyMine_loop sl ((i, j) # ps) =
     (case sl (i, j) of
        None \<Rightarrow> (sl, Some TypeError)
      | Some s \<Rightarrow> initNearbyMine_loop (sl((i, j) \<mapsto> s\<lparr>nearbyMine := nearByMine sl i j\<rparr>)) ps)"

definition initNearbyMine ::
  "(Position \<rightharpoonup> MineSlot) \<Rightarrow> int \<Rightarrow> int \<Rightarrow> (Position \<rightharpoonup> MineSlot) \<times> error option" where
  "initNearbyMine sl w h = initNearbyMine_loop sl (gridPositions w h)"

text \<open>
  \<^verbatim>\<open>touchingNoMine\<close>. The arrays \<^verbatim>\<open>result\<close> and \<^verbatim>\<open>stack\<close> are lists in the array's order:
  \<^verbatim>\<open>push\<close> appends, \<^verbatim>\<open>pop\<close> takes the last element. \<^verbatim>\<open>current.split("-")\<close> with
  \<^verbatim>\<open>parseInt\<close> gives back the pair \<open>(i, j)\<close> of a position whose coordinates are not
  negative, and only such positions reach the stack (the start passed
  \<open>isVaildPosition\<close> in \<^verbatim>\<open>click\<close>, every pushed neighbour passes it in the loop).

  The inner loop over \<open>deltaMap\<close>, for the cell \<open>(i, j)\<close>:
\<close>

fun touchingNoMine_expand ::
  "'a MineBoard_scheme \<Rightarrow> int \<Rightarrow> int \<Rightarrow> Position list \<Rightarrow> (int \<times> int) list \<Rightarrow> Position list
     \<Rightarrow> error + Position list" where
  "touchingNoMine_expand b i j result [] stack = Inr stack"
| "touchingNoMine_expand b i j result ((x, y) # ds) stack =
     (if \<not> isVaildPosition b (x + i) (y + j) then touchingNoMine_expand b i j result ds stack
      else (case slots b (x + i, y + j) of
              None \<Rightarrow> Inl TypeError
            | Some s \<Rightarrow>
                if hasMine s \<or> reveal s \<or> (x + i, y + j) \<in> set result
                   \<or> (x + i, y + j) \<in> set stack
                then touchingNoMine_expand b i j result ds stack
                else touchingNoMine_expand b i j result ds (stack @ [(x + i, y + j)])))"

text \<open>One round of the \<^verbatim>\<open>while\<close> loop, on a stack that is not empty.\<close>

definition touchingNoMine_step ::
  "'a MineBoard_scheme \<Rightarrow> Position list \<Rightarrow> Position list
     \<Rightarrow> error + (Position list \<times> Position list)" where
  "touchingNoMine_step b result stack =
     (let current = last stack;
          stack1 = butlast stack;
          result1 = result @ [current]
      in (case slots b current of
            None \<Rightarrow> Inl TypeError
          | Some s \<Rightarrow>
              if nearbyMine s > 0 then Inr (result1, stack1)
              else (case touchingNoMine_expand b (fst current) (snd current) result1 deltaMap stack1 of
                      Inl e \<Rightarrow> Inl e
                    | Inr stack2 \<Rightarrow> Inr (result1, stack2))))"

text \<open>The cells of the grid, and the measure under which the loop ends.\<close>

definition grid :: "'a MineBoard_scheme \<Rightarrow> Position set" where
  "grid b = {0..<width b} \<times> {0..<height b}"

definition pending :: "'a MineBoard_scheme \<Rightarrow> Position list \<Rightarrow> Position list \<Rightarrow> nat" where
  "pending b result stack = 2 * card (grid b - (set result \<union> set stack)) + length stack"

lemma finite_grid: "finite (grid b)"
  by (simp add: grid_def)

lemma grid_iff: "(x, y) \<in> grid b \<longleftrightarrow> isVaildPosition b x y"
  by (auto simp: grid_def isVaildPosition_def)

lemma pending_push:
  assumes "p \<in> grid b" "p \<notin> set result" "p \<notin> set stack"
  shows "pending b result (stack @ [p]) < pending b result stack"
proof -
  let ?U = "grid b - (set result \<union> set stack)"
  have fin: "finite ?U" using finite_grid by blast
  have mem: "p \<in> ?U" using assms by blast
  have eq: "grid b - (set result \<union> set (stack @ [p])) = ?U - {p}" by auto
  have "card (?U - {p}) < card ?U" using fin mem by (rule card_Diff1_less)
  then show ?thesis unfolding pending_def eq by simp
qed

lemma expand_pending:
  "touchingNoMine_expand b i j result ds stack = Inr stack2
     \<Longrightarrow> pending b result stack2 \<le> pending b result stack"
proof (induction ds arbitrary: stack)
  case Nil
  then show ?case by simp
next
  case (Cons d ds)
  obtain x y where d: "d = (x, y)" by (cases d)
  show ?case
  proof (cases "isVaildPosition b (x + i) (y + j)")
    case False
    with Cons d show ?thesis by simp
  next
    case True
    then obtain s where s: "slots b (x + i, y + j) = Some s"
      using Cons.prems d by (cases "slots b (x + i, y + j)") auto
    show ?thesis
    proof (cases "hasMine s \<or> reveal s \<or> (x + i, y + j) \<in> set result \<or> (x + i, y + j) \<in> set stack")
      case skip: True
      with Cons d True s show ?thesis by simp
    next
      case push: False
      have "touchingNoMine_expand b i j result ds (stack @ [(x + i, y + j)]) = Inr stack2"
        using Cons.prems d True s push by simp
      then have "pending b result stack2 \<le> pending b result (stack @ [(x + i, y + j)])"
        by (rule Cons.IH)
      moreover have "pending b result (stack @ [(x + i, y + j)]) < pending b result stack"
        using True push by (intro pending_push) (auto simp: grid_iff)
      ultimately show ?thesis by simp
    qed
  qed
qed

lemma pending_pop:
  assumes "stack \<noteq> []"
  shows "pending b (result @ [last stack]) (butlast stack) < pending b result stack"
proof -
  have "set (result @ [last stack]) \<union> set (butlast stack) = set result \<union> set stack"
    using assms by (metis Un_assoc append_butlast_last_id set_append sup_commute)
  then show ?thesis using assms by (simp add: pending_def)
qed

lemma step_pending:
  assumes "stack \<noteq> []" "touchingNoMine_step b result stack = Inr (result', stack')"
  shows "pending b result' stack' < pending b result stack"
proof -
  from assms(2) obtain s where s: "slots b (last stack) = Some s"
    by (cases "slots b (last stack)") (auto simp: touchingNoMine_step_def Let_def)
  have r: "result' = result @ [last stack]"
    using assms(2) s by (auto simp: touchingNoMine_step_def Let_def split: if_splits sum.splits)
  show ?thesis
  proof (cases "nearbyMine s > 0")
    case True
    then have "stack' = butlast stack"
      using assms(2) s by (auto simp: touchingNoMine_step_def Let_def)
    then show ?thesis using r pending_pop [OF assms(1)] by simp
  next
    case False
    then have "touchingNoMine_expand b (fst (last stack)) (snd (last stack))
                 (result @ [last stack]) deltaMap (butlast stack) = Inr stack'"
      using assms(2) s by (auto simp: touchingNoMine_step_def Let_def split: sum.splits)
    then have "pending b (result @ [last stack]) stack' \<le> pending b (result @ [last stack]) (butlast stack)"
      by (rule expand_pending)
    then show ?thesis using r pending_pop [OF assms(1), of b result] by simp
  qed
qed

text \<open>The \<^verbatim>\<open>while (stack.length != 0)\<close> loop.\<close>

function touchingNoMine_loop ::
  "'a MineBoard_scheme \<Rightarrow> Position list \<Rightarrow> Position list \<Rightarrow> error + Position list" where
  "touchingNoMine_loop b result stack =
     (if stack = [] then Inr result
      else (case touchingNoMine_step b result stack of
              Inl e \<Rightarrow> Inl e
            | Inr (result', stack') \<Rightarrow> touchingNoMine_loop b result' stack'))"
  by pat_completeness auto
termination
  by (relation "measure (\<lambda>(b, result, stack). pending b result stack)")
     (auto simp: step_pending)

declare touchingNoMine_loop.simps [simp del]

definition touchingNoMine :: "'a MineBoard_scheme \<Rightarrow> int \<Rightarrow> int \<Rightarrow> error + Position list" where
  "touchingNoMine b ox oy =
     (case slots b (ox, oy) of
        None \<Rightarrow> Inl TypeError
      | Some s \<Rightarrow>
          if hasMine s then Inl InternalInvariant
          else touchingNoMine_loop b [] [(ox, oy)])"

text \<open>
  The callback of \<^verbatim>\<open>.map\<close> in \<^verbatim>\<open>click\<close>, run over the positions that
  \<^verbatim>\<open>touchingNoMine\<close> returned: it marks the slot revealed, counts it and builds the event.
\<close>

fun click_map ::
  "'a MineBoard_scheme \<Rightarrow> Position list \<Rightarrow> 'a MineBoard_scheme \<times> (error + RevealEvent list)" where
  "click_map b [] = (b, Inr [])"
| "click_map b (p # ps) =
     (case slots b p of
        None \<Rightarrow> (b, Inl TypeError)
      | Some slot \<Rightarrow>
          (case click_map (b\<lparr>slots := (slots b)(p \<mapsto> slot\<lparr>reveal := True\<rparr>),
                              revealCount := revealCount b + 1\<rparr>) ps of
             (b', Inl e) \<Rightarrow> (b', Inl e)
           | (b', Inr evs) \<Rightarrow> (b', Inr (\<lparr>position = p, ev_nearbyMine = nearbyMine slot\<rparr> # evs))))"

section \<open>\<^verbatim>\<open>src/main.ts\<close>: a target mine count, or a layout\<close>

subsection \<open>The layout string\<close>

text \<open>
  The characters that \<^verbatim>\<open>trim\<close> strips and \<^verbatim>\<open>\s\<close> matches, among the characters a
  \<open>char\<close> can hold (code units below 256): tab, line feed, vertical tab, form feed,
  carriage return, space and the no-break space.
\<close>

definition isSpace :: "char \<Rightarrow> bool" where
  "isSpace c = (c \<in> set [CHR 0x09, CHR 0x0A, CHR 0x0B, CHR 0x0C, CHR 0x0D, CHR 0x20, CHR 0xA0])"

definition trim :: "string \<Rightarrow> string" where
  "trim s = rev (dropWhile isSpace (rev (dropWhile isSpace s)))"

text \<open>\<^verbatim>\<open>split("\n")\<close>: the pieces between the line feeds; a string with none is one piece.\<close>

fun split_nl :: "string \<Rightarrow> string list" where
  "split_nl [] = [[]]"
| "split_nl (c # cs) =
     (if c = CHR 0x0A then [] # split_nl cs
      else (case split_nl cs of
              [] \<Rightarrow> [[c]]
            | r # rs \<Rightarrow> (c # r) # rs))"

text \<open>
  \<^verbatim>\<open>split(/\s+/)\<close>: the pieces between the maximal runs of whitespace; the empty string
  gives one empty piece, a run at either end an empty piece there.
\<close>

function split_ws :: "string \<Rightarrow> string list" where
  "split_ws [] = [[]]"
| "split_ws (c # cs) =
     (if isSpace c then [] # split_ws (dropWhile isSpace cs)
      else (case split_ws cs of
              [] \<Rightarrow> [[c]]
            | r # rs \<Rightarrow> (c # r) # rs))"
  by pat_completeness auto
termination
  by (relation "measure length") (auto simp: length_dropWhile_le less_Suc_eq_le)

text \<open>
  \<^verbatim>\<open>rows[y][x] === "x"\<close>: an index past the end of the row reads \<^verbatim>\<open>undefined\<close>, which is
  not \<^verbatim>\<open>"x"\<close>.
\<close>

definition layout_hasMine :: "string list list \<Rightarrow> nat \<Rightarrow> nat \<Rightarrow> bool" where
  "layout_hasMine rows x y = (y < length rows \<and> x < length (rows ! y) \<and> rows ! y ! x = ''x'')"

text \<open>The body of the nested loops \<^verbatim>\<open>for y < height, for x < width\<close> of the constructor.\<close>

fun layout_loop ::
  "string list list \<Rightarrow> (Position \<rightharpoonup> MineSlot) \<Rightarrow> int \<Rightarrow> (nat \<times> nat) list
     \<Rightarrow> (Position \<rightharpoonup> MineSlot) \<times> int" where
  "layout_loop rows sl mc [] = (sl, mc)"
| "layout_loop rows sl mc ((x, y) # ps) =
     (let hasMine = layout_hasMine rows x y
      in layout_loop rows (sl((int x, int y) \<mapsto> new_MineSlot hasMine))
           (if hasMine then mc + 1 else mc) ps)"

definition layoutPositions :: "nat \<Rightarrow> nat \<Rightarrow> (nat \<times> nat) list" where
  "layoutPositions w h = concat (map (\<lambda>y. map (\<lambda>x. (x, y)) [0..<w]) [0..<h])"

subsection \<open>Numbers\<close>

text \<open>
  A number of the program is an IEEE 754 double. Every integer of magnitude up to
  \<open>2^53\<close> is one, and a sum, difference or product of integers whose magnitude is at most
  \<open>2^53\<close> is exact: there the model computes with \<open>int\<close>. The product
  \<^verbatim>\<open>width * height\<close> is read at three places. The check of the constructor and the length
  of the array of \<^verbatim>\<open>initField\<close> read it of any two arguments, and are modelled with the
  product that the code computes, \<open>js_times\<close>. The test for a win of \<^verbatim>\<open>click\<close> reads it
  after \<^verbatim>\<open>initField\<close> has created the array, or on the board of a layout, where it is
  below \<open>2^32\<close> and exact.

  A double has 53 significant bits, so the doubles of the interval from \<open>2^(52+k)\<close> to
  \<open>2^(53+k)\<close> are the multiples of \<open>2^k\<close>: \<open>ulp a\<close> is that spacing at the magnitude \<open>a\<close>.
\<close>

function ulp :: "nat \<Rightarrow> nat" where
  "ulp a = (if a < 2 ^ 53 then 1 else 2 * ulp (a div 2))"
  by pat_completeness auto
termination
  by (relation "measure id") auto

declare ulp.simps [simp del]

text \<open>
  The multiple of \<open>u\<close> nearest to \<open>a\<close>; half-way between two, the even one (the rounding
  of every arithmetic operation of the language).
\<close>

definition roundTiesToEven :: "nat \<Rightarrow> nat \<Rightarrow> nat" where
  "roundTiesToEven a u =
     (let q = a div u; r = a mod u
      in if 2 * r < u then q * u
         else if u < 2 * r then (q + 1) * u
         else if even q then q * u else (q + 1) * u)"

text \<open>The double nearest to an integer, before the test for overflow.\<close>

definition dbl :: "int \<Rightarrow> int" where
  "dbl x = (if x < 0 then - int (roundTiesToEven (nat (- x)) (ulp (nat (- x))))
            else int (roundTiesToEven (nat x) (ulp (nat x))))"

text \<open>
  \<^verbatim>\<open>a * b\<close> of two integers: the exact product, rounded; a rounded magnitude of
  \<open>2^1024\<close> or more is past the largest double and gives an infinity.
\<close>

datatype number = Finite int | PosInfinity | NegInfinity

definition js_times :: "int \<Rightarrow> int \<Rightarrow> number" where
  "js_times a b =
     (let p = dbl (a * b)
      in if p \<ge> 2 ^ 1024 then PosInfinity
         else if p \<le> - (2 ^ 1024) then NegInfinity
         else Finite p)"

text \<open>\<^verbatim>\<open>m >= p\<close> of an integer and a number.\<close>

fun js_ge :: "int \<Rightarrow> number \<Rightarrow> bool" where
  "js_ge m (Finite p) = (m \<ge> p)"
| "js_ge m PosInfinity = False"
| "js_ge m NegInfinity = True"

text \<open>
  The length that the runtime reads from a \<^verbatim>\<open>length\<close> property (\<^verbatim>\<open>ToLength\<close>): nothing
  below 0, nothing above \<open>2^53 - 1\<close>.
\<close>

fun toLength :: "number \<Rightarrow> int" where
  "toLength (Finite p) = (if p \<le> 0 then 0 else min p (2 ^ 53 - 1))"
| "toLength PosInfinity = 2 ^ 53 - 1"
| "toLength NegInfinity = 0"

subsection \<open>The constructor\<close>

datatype mineSpec = Count int | Layout string

text \<open>
  \<^verbatim>\<open>new MineBoard(width, height, mineCountOrSlots)\<close>. A constructor that throws gives
  no board. In the layout branch the arguments \<open>w\<close> and \<open>h\<close> are not read. In the other
  branch the check \<^verbatim>\<open>mineCountOrSlots >= width * height\<close> compares with the product that
  the code computes, \<open>js_times w h\<close>.
\<close>

definition new_MineBoard :: "int \<Rightarrow> int \<Rightarrow> mineSpec \<Rightarrow> error + CountBoard" where
  "new_MineBoard w h spec =
     (case spec of
        Layout str \<Rightarrow>
          (let rows = map (\<lambda>row. split_ws (trim row)) (split_nl (trim str))
           in (case rows of
                 [] \<Rightarrow> Inl TypeError
               | row0 # _ \<Rightarrow>
                   (let (sl, mc) = layout_loop rows Map.empty 0
                                     (layoutPositions (length row0) (length rows));
                        (sl', err) = initNearbyMine sl (int (length row0)) (int (length rows))
                    in (case err of
                          Some e \<Rightarrow> Inl e
                        | None \<Rightarrow>
                            Inr \<lparr>slots = sl', state = Playing, revealCount = 0,
                                 width = int (length row0), height = int (length rows),
                                 fieldInited = True, mineCount = mc\<rparr>))))
      | Count mc \<Rightarrow>
          if js_ge mc (js_times w h) then Inl InvalidConfiguration
          else Inr \<lparr>slots = Map.empty, state = Playing, revealCount = 0,
                    width = w, height = h, fieldInited = False, mineCount = mc\<rparr>)"

subsection \<open>\<^verbatim>\<open>initField\<close>\<close>

text \<open>
  The shuffle \<^verbatim>\<open>for (let i = positions.length - 1; i > 0; i--)\<close>. \<open>rand i\<close> stands for
  the draw \<^verbatim>\<open>Math.floor(Math.random() * (i + 1))\<close> of round \<open>i\<close>, an integer of
  \<open>[0, i]\<close>: it is read modulo \<open>i + 1\<close>, so that every function \<open>rand\<close> is an outcome of
  the generator and every outcome is some \<open>rand\<close>. The swap reads both elements before it
  writes.
\<close>

fun shuffle :: "(nat \<Rightarrow> nat) \<Rightarrow> nat \<Rightarrow> 'a list \<Rightarrow> 'a list" where
  "shuffle rand 0 positions = positions"
| "shuffle rand (Suc k) positions =
     (let i = Suc k;
          j = rand i mod (i + 1)
      in shuffle rand k (positions[i := positions ! j, j := positions ! i]))"

text \<open>\<^verbatim>\<open>positions.forEach((position, i) => ...)\<close>, from index \<open>i\<close> on.\<close>

fun initField_forEach ::
  "(Position \<rightharpoonup> MineSlot) \<Rightarrow> int \<Rightarrow> int \<Rightarrow> Position list \<Rightarrow> (Position \<rightharpoonup> MineSlot)" where
  "initField_forEach sl mc i [] = sl"
| "initField_forEach sl mc i (pos # ps) =
     initField_forEach (sl(pos \<mapsto> new_MineSlot (i < mc))) mc (i + 1) ps"

text \<open>
  \<^verbatim>\<open>Array.from({ length: width * height }, (_, index) => ...)\<close>: the candidate positions,
  one for each index below the length \<open>len\<close>. \<^verbatim>\<open>initField\<close> runs only after
  \<open>isVaildPosition\<close> held of some position, so \<open>width\<close> and \<open>height\<close> are positive there,
  \<^verbatim>\<open>Math.floor(index / width)\<close> is \<open>div\<close> and \<^verbatim>\<open>%\<close> is \<open>mod\<close>.
\<close>

definition candidatePositions :: "int \<Rightarrow> int \<Rightarrow> int \<Rightarrow> Position list" where
  "candidatePositions w h len = map (\<lambda>index. (index div w, index mod h)) [0..len - 1]"

text \<open>
  \<^verbatim>\<open>initField\<close>. \<^verbatim>\<open>this.fieldInited = true\<close> is the first write, and it stays when a later
  step throws. \<^verbatim>\<open>Array.from\<close> creates its array with the length
  \<open>toLength (js_times width height)\<close> and throws a \<open>RangeError\<close> when that is above
  \<open>2^32 - 1\<close>, the largest length of an array; \<^verbatim>\<open>push\<close> throws it on an array that has
  this length already.
\<close>

definition initField :: "(nat \<Rightarrow> nat) \<Rightarrow> CountBoard \<Rightarrow> int \<Rightarrow> int \<Rightarrow> CountBoard \<times> error option" where
  "initField rand b x y =
     (if fieldInited b then (b, None)
      else
        (let clickPosition = (x, y);
             len = toLength (js_times (width b) (height b))
         in if len > 2 ^ 32 - 1 then (b\<lparr>fieldInited := True\<rparr>, Some RangeError)
            else
              (let positions = filter (\<lambda>pos. pos \<noteq> clickPosition)
                                 (candidatePositions (width b) (height b) len);
                   positions = shuffle rand (length positions - 1) positions
               in if int (length positions) \<ge> 2 ^ 32 - 1
                  then (b\<lparr>fieldInited := True\<rparr>, Some RangeError)
                  else
                    (let positions = positions @ [clickPosition];
                         sl = initField_forEach (slots b) (mineCount b) 0 positions;
                         (sl', err) = initNearbyMine sl (width b) (height b)
                     in (b\<lparr>fieldInited := True, slots := sl'\<rparr>, err)))))"

subsection \<open>\<^verbatim>\<open>click\<close>\<close>

text \<open>
  The result is the board after the call and what the call gave: the error thrown, or
  the returned object. What was written to the board before a throw stays written.
\<close>

definition click ::
  "(nat \<Rightarrow> nat) \<Rightarrow> CountBoard \<Rightarrow> int \<Rightarrow> int \<Rightarrow> CountBoard \<times> (error + ClickResult)" where
  "click rand b x y =
     (if \<not> isVaildPosition b x y then (b, Inl OutOfBounds)
      else
        (case initField rand b x y of
           (b1, Some e) \<Rightarrow> (b1, Inl e)
         | (b1, None) \<Rightarrow>
             (case slots b1 (x, y) of
                None \<Rightarrow> (b1, Inl TypeError)
              | Some s \<Rightarrow>
                  (let b2 = (if hasMine s then b1\<lparr>state := Dead\<rparr> else b1)
                   in if state b2 \<noteq> Playing
                      then (b2, Inr \<lparr>res_state = state b2, reveals = []\<rparr>)
                      else
                        (case touchingNoMine b2 x y of
                           Inl e \<Rightarrow> (b2, Inl e)
                         | Inr ps \<Rightarrow>
                             (case click_map b2 ps of
                                (b3, Inl e) \<Rightarrow> (b3, Inl e)
                              | (b3, Inr evs) \<Rightarrow>
                                  (let b4 = (if int (revealCount b3)
                                                  = width b3 * height b3 - mineCount b3
                                             then b3\<lparr>state := Win\<rparr> else b3)
                                   in (b4, Inr \<lparr>res_state = state b4, reveals = evs\<rparr>))))))))"

section \<open>\<^verbatim>\<open>src/unnamed/part_000\<close>: a predicate\<close>

text \<open>
  \<^verbatim>\<open>new MineBoard(width, height, randomer)\<close>. An absent \<^verbatim>\<open>randomer\<close> is replaced by the
  random one, which is some predicate (see \<open>PredBoard\<close>).
\<close>

definition new_MineBoard_r :: "int \<Rightarrow> int \<Rightarrow> (int \<Rightarrow> int \<Rightarrow> bool) \<Rightarrow> PredBoard" where
  "new_MineBoard_r w h r =
     \<lparr>slots = Map.empty, state = Playing, revealCount = 0, width = w, height = h,
      fieldInited = False, totalSpaceCount = 0, randomer = r\<rparr>"

text \<open>The first pair of nested loops of \<^verbatim>\<open>initField\<close>: the slots and \<^verbatim>\<open>totalSpaceCount\<close>.\<close>

fun initField_r_loop ::
  "(int \<Rightarrow> int \<Rightarrow> bool) \<Rightarrow> Position \<Rightarrow> (Position \<rightharpoonup> MineSlot) \<Rightarrow> nat \<Rightarrow> Position list
     \<Rightarrow> (Position \<rightharpoonup> MineSlot) \<times> nat" where
  "initField_r_loop r clickPosition sl tsc [] = (sl, tsc)"
| "initField_r_loop r clickPosition sl tsc ((i, j) # ps) =
     (let hasMine = (if (i, j) = clickPosition then False else r i j)
      in initField_r_loop r clickPosition (sl((i, j) \<mapsto> new_MineSlot hasMine))
           (if \<not> hasMine then tsc + 1 else tsc) ps)"

definition initField_r :: "PredBoard \<Rightarrow> int \<Rightarrow> int \<Rightarrow> PredBoard \<times> error option" where
  "initField_r b x y =
     (if fieldInited b then (b, None)
      else
        (let (sl, tsc) = initField_r_loop (randomer b) (x, y) (slots b) (totalSpaceCount b)
                             (gridPositions (width b) (height b));
             (sl', err) = initNearbyMine sl (width b) (height b)
         in (b\<lparr>fieldInited := True, slots := sl', totalSpaceCount := tsc\<rparr>, err)))"

definition click_r :: "PredBoard \<Rightarrow> int \<Rightarrow> int \<Rightarrow> PredBoard \<times> (error + ClickResult)" where
  "click_r b x y =
     (if \<not> isVaildPosition b x y then (b, Inl OutOfBounds)
      else
        (case initField_r b x y of
           (b1, Some e) \<Rightarrow> (b1, Inl e)
         | (b1, None) \<Rightarrow>
             (case slots b1 (x, y) of
                None \<Rightarrow> (b1, Inl TypeError)
              | Some s \<Rightarrow>
                  (let b2 = (if hasMine s then b1\<lparr>state := Dead\<rparr> else b1)
                   in if state b2 \<noteq> Playing
                      then (b2, Inr \<lparr>res_state = state b2, reveals = []\<rparr>)
                      else
                        (case touchingNoMine b2 x y of
                           Inl e \<Rightarrow> (b2, Inl e)
                         | Inr ps \<Rightarrow>
                             (case click_map b2 ps of
                                (b3, Inl e) \<Rightarrow> (b3, Inl e)
                              | (b3, Inr evs) \<Rightarrow>
                                  (let b4 = (if revealCount b3 = totalSpaceCount b3
                                             then b3\<lparr>state := Win\<rparr> else b3)
                                   in (b4, Inr \<lparr>res_state = state b4, reveals = evs\<rparr>))))))))"

section \<open>Notions the properties are stated with\<close>

text \<open>
  The Moore neighbourhood of a position: the eight positions that the loops over
  \<open>deltaMap\<close> visit from it.
\<close>

definition neighbours :: "Position \<Rightarrow> Position list" where
  "neighbours p = map (\<lambda>(x, y). (x + fst p, y + snd p)) deltaMap"

text \<open>Every grid position holds a slot.\<close>

definition covered :: "'a MineBoard_scheme \<Rightarrow> bool" where
  "covered b = (\<forall>p \<in> set (gridPositions (width b) (height b)). slots b p \<noteq> None)"

text \<open>A cell that the flood-fill expands: its stored count is zero.\<close>

definition zeroCell :: "'a MineBoard_scheme \<Rightarrow> Position \<Rightarrow> bool" where
  "zeroCell b q = (case slots b q of None \<Rightarrow> False | Some s \<Rightarrow> nearbyMine s = 0)"

text \<open>
  The invariant of the \<^verbatim>\<open>while\<close> loop of \<^verbatim>\<open>touchingNoMine\<close> started at \<open>start\<close>: no
  position occurs twice in \<open>result\<close> and \<open>stack\<close> together, all of them are grid
  positions, and each but the start is a neighbour of an expanded cell of \<open>result\<close>.
\<close>

definition floodInv ::
  "'a MineBoard_scheme \<Rightarrow> Position \<Rightarrow> Position list \<Rightarrow> Position list \<Rightarrow> bool" where
  "floodInv b start result stack =
     (distinct (result @ stack) \<and> set (result @ stack) \<subseteq> grid b
      \<and> (\<forall>p \<in> set (result @ stack).
            p = start \<or> (\<exists>q \<in> set result. zeroCell b q \<and> p \<in> set (neighbours q))))"

text \<open>The grid cells that are revealed, each once.\<close>

definition revealedCells :: "'a MineBoard_scheme \<Rightarrow> Position list" where
  "revealedCells b =
     filter (\<lambda>p. case slots b p of None \<Rightarrow> False | Some s \<Rightarrow> reveal s)
       (gridPositions (width b) (height b))"

text \<open>Only \<^verbatim>\<open>reveal\<close> of a slot changes once the field is initialised.\<close>

definition sameMines :: "(Position \<rightharpoonup> MineSlot) \<Rightarrow> (Position \<rightharpoonup> MineSlot) \<Rightarrow> bool" where
  "sameMines sl sl' =
     (\<forall>p. case sl p of
            None \<Rightarrow> sl' p = None
          | Some s \<Rightarrow> (\<exists>s'. sl' p = Some s' \<and> hasMine s' = hasMine s))"

text \<open>
  The constructor's \<^verbatim>\<open>rows\<close>: the trimmed layout, split at the line feeds, each row
  trimmed and split at its runs of whitespace.
\<close>

definition layoutRows :: "string \<Rightarrow> string list list" where
  "layoutRows str = map (\<lambda>row. split_ws (trim row)) (split_nl (trim str))"

text \<open>
  The whitespace-separated tokens of a string, as the spec counts them: its maximal
  runs of characters other than whitespace.
\<close>

function tokens :: "string \<Rightarrow> string list" where
  "tokens s =
     (case dropWhile isSpace s of
        [] \<Rightarrow> []
      | c # cs \<Rightarrow> takeWhile (\<lambda>c. \<not> isSpace c) (c # cs) # tokens (dropWhile (\<lambda>c. \<not> isSpace c) cs))"
  by pat_completeness auto
termination
proof (relation "measure length")
  show "wf (measure length)" by simp
next
  fix s :: string and c cs
  assume "dropWhile isSpace s = c # cs"
  then have "length (c # cs) \<le> length s" by (metis length_dropWhile_le)
  moreover have "length (dropWhile (\<lambda>c. \<not> isSpace c) cs) \<le> length cs" by (rule length_dropWhile_le)
  ultimately show "(dropWhile (\<lambda>c. \<not> isSpace c) cs, s) \<in> measure length" by simp
qed

declare tokens.simps [simp del]

text \<open>A position holds a slot with a mine.\<close>

definition mineAt :: "(Position \<rightharpoonup> MineSlot) \<Rightarrow> Position \<Rightarrow> bool" where
  "mineAt sl p = (case sl p of None \<Rightarrow> False | Some s \<Rightarrow> hasMine s)"

text \<open>
  The number of the Moore neighbours of \<open>p\<close> that lie inside the grid and hold a mine:
  what the spec asks \<^verbatim>\<open>nearbyMine\<close> to be.
\<close>

definition inBoundsMines :: "'a MineBoard_scheme \<Rightarrow> Position \<Rightarrow> nat" where
  "inBoundsMines b p = length (filter (\<lambda>q. q \<in> grid b \<and> mineAt (slots b) q) (neighbours p))"

text \<open>Two stores hold the same slots but for \<^verbatim>\<open>reveal\<close>.\<close>

definition sameCells :: "(Position \<rightharpoonup> MineSlot) \<Rightarrow> (Position \<rightharpoonup> MineSlot) \<Rightarrow> bool" where
  "sameCells sl sl' =
     (\<forall>p. case sl p of
            None \<Rightarrow> sl' p = None
          | Some s \<Rightarrow> (\<exists>s'. sl' p = Some s' \<and> hasMine s' = hasMine s
                            \<and> nearbyMine s' = nearbyMine s))"

text \<open>Every grid cell stores the number of its neighbours in the grid that hold a mine.\<close>

definition countsCorrect :: "'a MineBoard_scheme \<Rightarrow> bool" where
  "countsCorrect b =
     (\<forall>p \<in> grid b. \<exists>s. slots b p = Some s \<and> nearbyMine s = inBoundsMines b p)"

text \<open>
  What \<^verbatim>\<open>click\<close> does once the bounds are checked and \<^verbatim>\<open>initField\<close> has run, which is
  the same text in both source files but for the test that decides a win (\<open>won\<close>);
  \<open>click_unfold\<close> and \<open>click_r_unfold\<close> below show that it is that part.
\<close>

definition click_body ::
  "('a MineBoard_scheme \<Rightarrow> bool) \<Rightarrow> 'a MineBoard_scheme \<Rightarrow> int \<Rightarrow> int
     \<Rightarrow> 'a MineBoard_scheme \<times> (error + ClickResult)" where
  "click_body won b1 x y =
     (case slots b1 (x, y) of
        None \<Rightarrow> (b1, Inl TypeError)
      | Some s \<Rightarrow>
          (let b2 = (if hasMine s then b1\<lparr>state := Dead\<rparr> else b1)
           in if state b2 \<noteq> Playing
              then (b2, Inr \<lparr>res_state = state b2, reveals = []\<rparr>)
              else
                (case touchingNoMine b2 x y of
                   Inl e \<Rightarrow> (b2, Inl e)
                 | Inr ps \<Rightarrow>
                     (case click_map b2 ps of
                        (b3, Inl e) \<Rightarrow> (b3, Inl e)
                      | (b3, Inr evs) \<Rightarrow>
                          (let b4 = (if won b3 then b3\<lparr>state := Win\<rparr> else b3)
                           in (b4, Inr \<lparr>res_state = state b4, reveals = evs\<rparr>))))))"

section \<open>The arithmetic of numbers\<close>

lemma ulp_small: "a < 2 ^ 53 \<Longrightarrow> ulp a = 1"
  by (simp add: ulp.simps)

lemma ulp_large: "\<not> a < 2 ^ 53 \<Longrightarrow> ulp a = 2 * ulp (a div 2)"
  by (subst ulp.simps) simp

lemma ulp_pos: "0 < ulp a"
  by (induction a rule: ulp.induct) (subst ulp.simps, simp)

lemma ulp_bounds: "2 ^ 53 \<le> a \<Longrightarrow> 2 ^ 52 * ulp a \<le> a \<and> a < 2 ^ 53 * ulp a \<and> even (ulp a)"
proof (induction a rule: ulp.induct)
  case (1 a)
  show ?case
  proof (cases "a div 2 < 2 ^ 53")
    case True
    then have "ulp a = 2" using 1(2) by (simp add: ulp_large ulp_small)
    then show ?thesis using 1(2) True by simp
  next
    case False
    then have ih: "2 ^ 52 * ulp (a div 2) \<le> a div 2 \<and> a div 2 < 2 ^ 53 * ulp (a div 2)"
      using 1 by simp
    have u: "ulp a = 2 * ulp (a div 2)" using 1(2) by (simp add: ulp_large)
    show ?thesis using ih u by simp linarith
  qed
qed

lemma roundTiesToEven_1: "roundTiesToEven a (Suc 0) = a"
  by (simp add: roundTiesToEven_def)

lemma dbl_exact: "\<bar>x\<bar> < 2 ^ 53 \<Longrightarrow> dbl x = x"
  by (simp add: dbl_def ulp_small roundTiesToEven_1)

lemma roundTiesToEven_ge: "0 < u \<Longrightarrow> (a div u) * u \<le> roundTiesToEven a u"
  by (simp add: roundTiesToEven_def Let_def)

lemma roundTiesToEven_le: "0 < u \<Longrightarrow> roundTiesToEven a u \<le> (a div u + 1) * u"
  by (simp add: roundTiesToEven_def Let_def)


lemma dbl_large: assumes "2 ^ 53 \<le> x" shows "2 ^ 53 \<le> dbl x"
proof -
  let ?a = "nat x"
  have a: "2 ^ 53 \<le> ?a" using assms by (simp add: le_nat_iff)
  have b: "2 ^ 52 * ulp ?a \<le> ?a" "even (ulp ?a)" using ulp_bounds [OF a] by simp_all
  have "2 \<le> ulp ?a" using b(2) ulp_pos [of ?a] by (cases "ulp ?a = 1") auto
  have "2 ^ 52 \<le> ?a div ulp ?a"
    using b(1) ulp_pos [of ?a] by (simp add: less_eq_div_iff_mult_less_eq)
  then have "2 ^ 52 * ulp ?a \<le> (?a div ulp ?a) * ulp ?a" by simp
  also have "\<dots> \<le> roundTiesToEven ?a (ulp ?a)" using ulp_pos by (rule roundTiesToEven_ge)
  finally have "2 ^ 53 \<le> roundTiesToEven ?a (ulp ?a)" using \<open>2 \<le> ulp ?a\<close> by simp
  then show ?thesis using assms by (simp add: dbl_def)
qed

lemma dbl_nonneg: "0 \<le> x \<Longrightarrow> 0 \<le> dbl x"
  by (simp add: dbl_def)

lemma dbl_nonpos: "x \<le> 0 \<Longrightarrow> dbl x \<le> 0"
  by (simp add: dbl_def roundTiesToEven_def)

lemma dbl_2_53: "dbl (2 ^ 53) = 2 ^ 53" "dbl (- (2 ^ 53)) = - (2 ^ 53)"
  by (simp_all add: dbl_def ulp_large ulp_small roundTiesToEven_def)

lemma dbl_exact_le:
  assumes "\<bar>x\<bar> \<le> 2 ^ 53"
  shows "dbl x = x"
proof -
  consider "\<bar>x\<bar> < 2 ^ 53" | "x = 2 ^ 53" | "x = - (2 ^ 53)"
    using assms by atomize_elim arith
  then show ?thesis
  proof cases
    case 1 then show ?thesis by (rule dbl_exact)
  next
    case 2 then show ?thesis by (simp only: dbl_2_53)
  next
    case 3 then show ?thesis by (simp only: dbl_2_53)
  qed
qed

lemma js_finite:
  fixes p :: int
  assumes "\<bar>p\<bar> \<le> 2 ^ 53"
  shows "\<not> 2 ^ 1024 \<le> p" "\<not> p \<le> - (2 ^ 1024)"
proof -
  have "(2::int) ^ 53 < 2 ^ 1024" by (rule power_strict_increasing) simp_all
  then show "\<not> 2 ^ 1024 \<le> p" "\<not> p \<le> - (2 ^ 1024)" using assms by linarith+
qed

lemma js_times_exact: "\<bar>a * b\<bar> \<le> 2 ^ 53 \<Longrightarrow> js_times a b = Finite (a * b)"
  unfolding js_times_def Let_def by (simp only: dbl_exact_le js_finite if_False)

lemma roundTiesToEven_error:
  assumes "0 < u"
  shows "2 * \<bar>int (roundTiesToEven a u) - int a\<bar> \<le> int u"
proof -
  define q where "q = a div u"
  define r where "r = a mod u"
  have a: "a = q * u + r" by (simp add: q_def r_def)
  have r: "r < u" using assms by (simp add: r_def)
  have "2 * \<bar>int (if 2 * r < u then q * u
                   else if u < 2 * r then (q + 1) * u
                   else if even q then q * u else (q + 1) * u) - int (q * u + r)\<bar> \<le> int u"
    using r by (auto simp: algebra_simps)
  then show ?thesis
    unfolding roundTiesToEven_def Let_def q_def [symmetric] r_def [symmetric]
    by (simp only: a [symmetric])
qed

lemma dbl_error: "\<bar>dbl x - x\<bar> * 2 ^ 53 \<le> \<bar>x\<bar>"
proof (cases "\<bar>x\<bar> < 2 ^ 53")
  case True
  then show ?thesis by (simp add: dbl_exact)
next
  case False
  define a where "a = nat \<bar>x\<bar>"
  have a: "2 ^ 53 \<le> a" using False by (simp add: a_def le_nat_iff)
  have b: "2 ^ 52 * ulp a \<le> a" using ulp_bounds [OF a] by simp
  have e: "2 * \<bar>int (roundTiesToEven a (ulp a)) - int a\<bar> \<le> int (ulp a)"
    using ulp_pos by (rule roundTiesToEven_error)
  have "\<bar>dbl x - x\<bar> = \<bar>int (roundTiesToEven a (ulp a)) - int a\<bar>"
    by (cases "x < 0") (simp_all add: dbl_def a_def)
  then have "\<bar>dbl x - x\<bar> * 2 ^ 53 = (2 * \<bar>int (roundTiesToEven a (ulp a)) - int a\<bar>) * 2 ^ 52"
    by simp
  also have "\<dots> \<le> int (ulp a) * 2 ^ 52" using e by simp
  also have "\<dots> \<le> int a" using b by (simp add: mult.commute flip: of_nat_mult of_nat_power)
  also have "\<dots> = \<bar>x\<bar>" by (simp add: a_def)
  finally show ?thesis .
qed

text \<open>
  The length of the array of \<^verbatim>\<open>initField\<close>: the exact product when that is at most
  \<open>2^32 - 1\<close>, and above \<open>2^32 - 1\<close> when the product is.
\<close>

lemma toLength_js_times_small:
  assumes "a * b \<le> 2 ^ 32 - 1"
  shows "toLength (js_times a b) = (if a * b \<le> 0 then 0 else a * b)"
proof (cases "a * b \<le> 0")
  case True
  then have "dbl (a * b) \<le> 0" by (rule dbl_nonpos)
  then show ?thesis using True by (simp add: js_times_def Let_def)
next
  case False
  then have "\<bar>a * b\<bar> \<le> 2 ^ 53" using assms by simp
  then show ?thesis using False assms by (simp add: js_times_exact)
qed

lemma toLength_js_times_large:
  assumes "2 ^ 32 - 1 < a * b"
  shows "2 ^ 32 - 1 < toLength (js_times a b)"
proof (cases "a * b < 2 ^ 53")
  case True
  then have "\<bar>a * b\<bar> \<le> 2 ^ 53" using assms by simp
  then show ?thesis using True assms by (simp add: js_times_exact)
next
  case False
  then have "2 ^ 53 \<le> a * b" by simp
  then have "2 ^ 53 \<le> dbl (a * b)" by (rule dbl_large)
  then have "2 ^ 53 - 1 \<le> toLength (js_times a b)"
    by (simp add: js_times_def Let_def)
  then show ?thesis by simp
qed

section \<open>Running the program on concrete boards\<close>

text \<open>The equations that unfold a call on a concrete board.\<close>

lemmas eval_defs = new_MineBoard_def click_def initField_def isVaildPosition_def
  js_times_exact
  touchingNoMine_def touchingNoMine_loop.simps touchingNoMine_step_def
  initNearbyMine_def gridPositions_def nearByMine_def deltaMap_def new_MineSlot_def
  layoutPositions_def layout_hasMine_def trim_def isSpace_def candidatePositions_def
  Let_def upto.simps

lemmas eval_defs_r = new_MineBoard_r_def click_r_def initField_r_def isVaildPosition_def
  touchingNoMine_def touchingNoMine_loop.simps touchingNoMine_step_def
  initNearbyMine_def gridPositions_def nearByMine_def deltaMap_def new_MineSlot_def
  Let_def upto.simps

text \<open>A shuffle of two equal candidates leaves them as they are, whatever is drawn.\<close>

lemma swap_same2: "j < 2 \<Longrightarrow> [a, a][Suc 0 := [a, a] ! j, j := [a, a] ! Suc 0] = [a, a]"
  by (cases j) (auto simp: less_Suc_eq numeral_2_eq_2)

lemma shuffle_same2: "shuffle rand (Suc 0) [a, a] = [a, a]"
proof -
  have "rand (Suc 0) mod (Suc 0 + 1) < 2"
    by (simp add: numeral_2_eq_2 del: mod_less_divisor) (rule mod_less_divisor, simp)
  then have "[a, a][Suc 0 := [a, a] ! (rand (Suc 0) mod (Suc 0 + 1)),
                   rand (Suc 0) mod (Suc 0 + 1) := [a, a] ! Suc 0] = [a, a]"
    by (rule swap_same2)
  then show ?thesis
    unfolding shuffle.simps Let_def by simp
qed

section \<open>The flood-fill\<close>

lemma set_gridPositions: "set (gridPositions w h) = {0..<w} \<times> {0..<h}"
  by (auto simp: gridPositions_def)

lemma covered_grid: "covered b \<Longrightarrow> p \<in> grid b \<Longrightarrow> \<exists>s. slots b p = Some s"
  by (auto simp: covered_def set_gridPositions grid_def)

lemma expand_new:
  "touchingNoMine_expand b i j result ds stack = Inr stack2
   \<Longrightarrow> \<exists>new. stack2 = stack @ new \<and> distinct new
          \<and> set new \<inter> (set result \<union> set stack) = {}
          \<and> set new \<subseteq> grid b
          \<and> set new \<subseteq> (\<lambda>(x, y). (x + i, y + j)) ` set ds"
proof (induction ds arbitrary: stack)
  case Nil
  then show ?case by simp
next
  case (Cons d ds)
  obtain x y where d: "d = (x, y)" by (cases d)
  let ?p = "(x + i, y + j)"
  show ?case
  proof (cases "isVaildPosition b (x + i) (y + j)")
    case False
    then have "touchingNoMine_expand b i j result ds stack = Inr stack2"
      using Cons.prems d by simp
    from Cons.IH [OF this] show ?thesis by auto
  next
    case True
    then obtain s where s: "slots b ?p = Some s"
      using Cons.prems d by (cases "slots b ?p") auto
    show ?thesis
    proof (cases "hasMine s \<or> reveal s \<or> ?p \<in> set result \<or> ?p \<in> set stack")
      case skip: True
      then have "touchingNoMine_expand b i j result ds stack = Inr stack2"
        using Cons.prems d True s by simp
      from Cons.IH [OF this] show ?thesis by auto
    next
      case push: False
      then have "touchingNoMine_expand b i j result ds (stack @ [?p]) = Inr stack2"
        using Cons.prems d True s by simp
      from Cons.IH [OF this] obtain new where new:
        "stack2 = (stack @ [?p]) @ new" "distinct new"
        "set new \<inter> (set result \<union> set (stack @ [?p])) = {}"
        "set new \<subseteq> grid b" "set new \<subseteq> (\<lambda>(x, y). (x + i, y + j)) ` set ds"
        by blast
      have "?p \<in> grid b" using True by (simp add: grid_iff)
      with new push d show ?thesis
        by (intro exI [of _ "?p # new"]) auto
    qed
  qed
qed

lemma expand_total:
  "covered b \<Longrightarrow> \<exists>stack2. touchingNoMine_expand b i j result ds stack = Inr stack2"
proof (induction ds arbitrary: stack)
  case Nil
  then show ?case by simp
next
  case (Cons d ds)
  obtain x y where d: "d = (x, y)" by (cases d)
  show ?case
  proof (cases "isVaildPosition b (x + i) (y + j)")
    case False
    with Cons d show ?thesis by simp
  next
    case True
    then obtain s where "slots b (x + i, y + j) = Some s"
      using covered_grid [OF Cons.prems, of "(x + i, y + j)"] by (auto simp: grid_iff)
    with Cons d True show ?thesis by simp
  qed
qed

lemma step_cases:
  assumes "touchingNoMine_step b result stack = Inr (result', stack')"
  obtains s where "slots b (last stack) = Some s" "nearbyMine s > 0"
      "result' = result @ [last stack]" "stack' = butlast stack"
  | s new where "slots b (last stack) = Some s" "nearbyMine s = 0"
      "result' = result @ [last stack]" "stack' = butlast stack @ new" "distinct new"
      "set new \<inter> (set result' \<union> set (butlast stack)) = {}" "set new \<subseteq> grid b"
      "set new \<subseteq> set (neighbours (last stack))"
proof -
  from assms obtain s where s: "slots b (last stack) = Some s"
    by (cases "slots b (last stack)") (auto simp: touchingNoMine_step_def Let_def)
  have r: "result' = result @ [last stack]"
    using assms s by (auto simp: touchingNoMine_step_def Let_def split: if_splits sum.splits)
  show thesis
  proof (cases "nearbyMine s > 0")
    case True
    then have "stack' = butlast stack"
      using assms s by (auto simp: touchingNoMine_step_def Let_def)
    with s True r that(1) show thesis by blast
  next
    case False
    then have "touchingNoMine_expand b (fst (last stack)) (snd (last stack))
                 result' deltaMap (butlast stack) = Inr stack'"
      using assms s r by (auto simp: touchingNoMine_step_def Let_def split: sum.splits)
    from expand_new [OF this] obtain new where new:
      "stack' = butlast stack @ new" "distinct new"
      "set new \<inter> (set result' \<union> set (butlast stack)) = {}" "set new \<subseteq> grid b"
      "set new \<subseteq> (\<lambda>(x, y). (x + fst (last stack), y + snd (last stack))) ` set deltaMap"
      by blast
    from new(5) have "set new \<subseteq> set (neighbours (last stack))"
      by (simp add: neighbours_def)
    with s False r new that(2) show thesis by simp
  qed
qed

lemma set_pop:
  "stack \<noteq> [] \<Longrightarrow> set (result @ [last stack]) \<union> set (butlast stack) = set result \<union> set stack"
  by (metis Un_assoc append_butlast_last_id set_append sup_commute)

lemma distinct_pop:
  assumes "stack \<noteq> []" "distinct (result @ stack)"
  shows "distinct ((result @ [last stack]) @ butlast stack)"
proof -
  have "stack = butlast stack @ [last stack]" using assms(1) by simp
  then have "distinct (result @ butlast stack @ [last stack])" using assms(2) by simp
  then show ?thesis by auto
qed

lemma step_mono:
  assumes "stack \<noteq> []" "touchingNoMine_step b result stack = Inr (result', stack')"
  shows "set result \<union> set stack \<subseteq> set result' \<union> set stack'"
  using assms(2)
proof (cases rule: step_cases)
  case (1 s)
  then show ?thesis using set_pop [OF assms(1), of result] by auto
next
  case (2 s new)
  then show ?thesis using set_pop [OF assms(1), of result] by auto
qed

lemma step_floodInv:
  assumes ne: "stack \<noteq> []"
    and step: "touchingNoMine_step b result stack = Inr (result', stack')"
    and inv: "floodInv b start result stack"
  shows "floodInv b start result' stack'"
proof -
  have d0: "distinct ((result @ [last stack]) @ butlast stack)"
    using inv ne by (intro distinct_pop) (simp_all add: floodInv_def)
  have s0: "set (result @ [last stack]) \<union> set (butlast stack) = set result \<union> set stack"
    using ne by (rule set_pop)
  have g0: "set result \<union> set stack \<subseteq> grid b"
    using inv by (simp add: floodInv_def)
  have o0: "\<forall>p \<in> set result \<union> set stack.
              p = start \<or> (\<exists>q \<in> set (result @ [last stack]). zeroCell b q \<and> p \<in> set (neighbours q))"
    using inv by (auto simp: floodInv_def)
  from step show ?thesis
  proof (cases rule: step_cases)
    case (1 s)
    show ?thesis
      unfolding floodInv_def
    proof (intro conjI)
      show "distinct (result' @ stack')" using d0 1 by simp
      show "set (result' @ stack') \<subseteq> grid b" using s0 g0 1 by auto
      show "\<forall>p\<in>set (result' @ stack'). p = start \<or> (\<exists>q\<in>set result'. zeroCell b q \<and> p \<in> set (neighbours q))"
        using o0 s0 1 by auto
    qed
  next
    case (2 s new)
    have z: "zeroCell b (last stack)" using 2 by (simp add: zeroCell_def)
    have cur: "last stack \<in> set result'" using 2 by simp
    show ?thesis
      unfolding floodInv_def
    proof (intro conjI)
      show "distinct (result' @ stack')" using d0 2 by auto
      show "set (result' @ stack') \<subseteq> grid b" using s0 g0 2 by auto
      show "\<forall>p\<in>set (result' @ stack'). p = start \<or> (\<exists>q\<in>set result'. zeroCell b q \<and> p \<in> set (neighbours q))"
      proof
        fix p assume "p \<in> set (result' @ stack')"
        then have "p \<in> set result \<union> set stack \<or> p \<in> set new" using s0 2 by auto
        then show "p = start \<or> (\<exists>q\<in>set result'. zeroCell b q \<and> p \<in> set (neighbours q))"
        proof
          assume "p \<in> set result \<union> set stack"
          with o0 2 show ?thesis by auto
        next
          assume "p \<in> set new"
          with 2 have "p \<in> set (neighbours (last stack))" by auto
          with z cur show ?thesis by blast
        qed
      qed
    qed
  qed
qed

lemma loop_floodInv:
  "floodInv b start result stack \<Longrightarrow> touchingNoMine_loop b result stack = Inr res
   \<Longrightarrow> floodInv b start res [] \<and> set result \<union> set stack \<subseteq> set res"
proof (induction b result stack rule: touchingNoMine_loop.induct)
  case (1 b result stack)
  show ?case
  proof (cases "stack = []")
    case True
    with 1 show ?thesis by (simp add: touchingNoMine_loop.simps)
  next
    case False
    then obtain result' stack' where
      st: "touchingNoMine_step b result stack = Inr (result', stack')"
      and lp: "touchingNoMine_loop b result' stack' = Inr res"
      using "1.prems"(2)
      by (cases "touchingNoMine_step b result stack")
         (auto simp: touchingNoMine_loop.simps [of b result stack])
    have "floodInv b start result' stack'"
      using False st "1.prems"(1) by (rule step_floodInv)
    from "1.IH" [OF False st refl this lp]
    have "floodInv b start res []" "set result' \<union> set stack' \<subseteq> set res" by auto
    moreover have "set result \<union> set stack \<subseteq> set result' \<union> set stack'"
      using False st by (rule step_mono)
    ultimately show ?thesis by blast
  qed
qed

lemma loop_total:
  "covered b \<Longrightarrow> set stack \<subseteq> grid b \<Longrightarrow> \<exists>res. touchingNoMine_loop b result stack = Inr res"
proof (induction b result stack rule: touchingNoMine_loop.induct)
  case (1 b result stack)
  show ?case
  proof (cases "stack = []")
    case True
    then show ?thesis by (simp add: touchingNoMine_loop.simps)
  next
    case False
    then have "last stack \<in> grid b" using "1.prems"(2) last_in_set by blast
    then obtain s where s: "slots b (last stack) = Some s"
      using covered_grid [OF "1.prems"(1)] by blast
    obtain stack2 where
      "touchingNoMine_expand b (fst (last stack)) (snd (last stack))
         (result @ [last stack]) deltaMap (butlast stack) = Inr stack2"
      using expand_total [OF "1.prems"(1)] by blast
    then obtain result' stack' where
      st: "touchingNoMine_step b result stack = Inr (result', stack')"
      using s by (cases "0 < nearbyMine s") (auto simp: touchingNoMine_step_def Let_def)
    have "set stack' \<subseteq> grid b"
      using st
    proof (cases rule: step_cases)
      case (1 s)
      then show ?thesis using \<open>set stack \<subseteq> grid b\<close> by (auto dest: in_set_butlastD)
    next
      case (2 s new)
      then show ?thesis using \<open>set stack \<subseteq> grid b\<close> by (auto dest: in_set_butlastD)
    qed
    from "1.IH" [OF False st refl "1.prems"(1) this]
    show ?thesis
      using False st by (simp add: touchingNoMine_loop.simps [of b result stack])
  qed
qed

lemma click_unfold:
  "click rand b x y =
     (if \<not> isVaildPosition b x y then (b, Inl OutOfBounds)
      else (case initField rand b x y of
              (b1, Some e) \<Rightarrow> (b1, Inl e)
            | (b1, None) \<Rightarrow>
                click_body (\<lambda>b3. int (revealCount b3) = width b3 * height b3 - mineCount b3) b1 x y))"
  by (simp add: click_def click_body_def split: prod.splits option.splits)

lemma click_r_unfold:
  "click_r b x y =
     (if \<not> isVaildPosition b x y then (b, Inl OutOfBounds)
      else (case initField_r b x y of
              (b1, Some e) \<Rightarrow> (b1, Inl e)
            | (b1, None) \<Rightarrow> click_body (\<lambda>b3. revealCount b3 = totalSpaceCount b3) b1 x y))"
  by (simp add: click_r_def click_body_def split: prod.splits option.splits)

lemma touchingNoMine_result:
  assumes "touchingNoMine b ox oy = Inr res" "isVaildPosition b ox oy"
  shows "floodInv b (ox, oy) res [] \<and> (ox, oy) \<in> set res"
proof -
  from assms(1) have lp: "touchingNoMine_loop b [] [(ox, oy)] = Inr res"
    by (auto simp: touchingNoMine_def split: option.splits if_splits)
  have "floodInv b (ox, oy) [] [(ox, oy)]"
    using assms(2) by (simp add: floodInv_def grid_iff)
  from loop_floodInv [OF this lp] show ?thesis by simp
qed

lemma touchingNoMine_total:
  assumes "covered b" "isVaildPosition b ox oy" "slots b (ox, oy) = Some s" "\<not> hasMine s"
  shows "\<exists>res. touchingNoMine b ox oy = Inr res"
proof -
  have "set [(ox, oy)] \<subseteq> grid b" using assms(2) by (simp add: grid_iff)
  from loop_total [OF assms(1) this, of "[]"] show ?thesis
    using assms(3,4) by (simp add: touchingNoMine_def)
qed

lemma click_map_events:
  "click_map b ps = (b', Inr evs)
   \<Longrightarrow> map position evs = ps \<and> revealCount b' = revealCount b + length ps"
proof (induction ps arbitrary: b b' evs)
  case Nil
  then show ?case by simp
next
  case (Cons p ps)
  from Cons.prems obtain slot where slot: "slots b p = Some slot"
    by (cases "slots b p") auto
  let ?b1 = "b\<lparr>slots := (slots b)(p \<mapsto> slot\<lparr>reveal := True\<rparr>), revealCount := revealCount b + 1\<rparr>"
  obtain b2 r2 where r: "click_map ?b1 ps = (b2, r2)" by (cases "click_map ?b1 ps")
  with Cons.prems slot obtain evs2 where
    e: "r2 = Inr evs2" "b' = b2" "evs = \<lparr>position = p, ev_nearbyMine = nearbyMine slot\<rparr> # evs2"
    by (cases r2) auto
  from Cons.IH [of ?b1 b2 evs2] r e have "map position evs2 = ps" "revealCount b2 = revealCount ?b1 + length ps"
    by auto
  with e show ?case by simp
qed

lemma click_map_total:
  "\<forall>p \<in> set ps. slots b p \<noteq> None \<Longrightarrow> \<exists>b' evs. click_map b ps = (b', Inr evs)"
proof (induction ps arbitrary: b)
  case Nil
  then show ?case by simp
next
  case (Cons p ps)
  then obtain slot where slot: "slots b p = Some slot" by auto
  let ?b1 = "b\<lparr>slots := (slots b)(p \<mapsto> slot\<lparr>reveal := True\<rparr>), revealCount := revealCount b + 1\<rparr>"
  have "\<forall>q \<in> set ps. slots ?b1 q \<noteq> None" using Cons.prems by simp
  from Cons.IH [OF this] obtain b' evs where "click_map ?b1 ps = (b', Inr evs)" by blast
  with slot show ?case by simp
qed

text \<open>What a call that reaches the flood-fill returns.\<close>

lemma click_body_reveal:
  assumes "slots b (x, y) = Some s" "\<not> hasMine s" "state b = Playing"
    and "click_body won b x y = (b', Inr r)"
  obtains ps where "touchingNoMine b x y = Inr ps" "map position (reveals r) = ps"
    "revealCount b' = revealCount b + length ps"
proof -
  from assms obtain ps b3 evs where ps: "touchingNoMine b x y = Inr ps"
    and cm: "click_map b ps = (b3, Inr evs)" and r: "reveals r = evs"
    and b': "b' = (if won b3 then b3\<lparr>state := Win\<rparr> else b3)"
    by (auto simp: click_body_def Let_def split: if_splits sum.splits prod.splits)
  from click_map_events [OF cm] r b' have
    "map position (reveals r) = ps" "revealCount b' = revealCount b + length ps"
    by auto
  with ps that show thesis by blast
qed

lemma click_body_distinct:
  assumes "click_body won b x y = (b', Inr r)" "isVaildPosition b x y"
  shows "distinct (map position (reveals r))"
proof -
  from assms(1) obtain s where s: "slots b (x, y) = Some s"
    by (cases "slots b (x, y)") (auto simp: click_body_def)
  show ?thesis
  proof (cases "hasMine s \<or> state b \<noteq> Playing")
    case True
    with assms(1) s have "reveals r = []"
      by (auto simp: click_body_def Let_def split: if_splits)
    then show ?thesis by simp
  next
    case False
    then have "\<not> hasMine s" "state b = Playing" by auto
    from click_body_reveal [OF s this assms(1)] obtain ps where
      ps: "touchingNoMine b x y = Inr ps" "map position (reveals r) = ps" by blast
    from touchingNoMine_result [OF ps(1) assms(2)] ps(2) show ?thesis
      by (simp add: floodInv_def)
  qed
qed

lemma initField_dims:
  "initField rand b x y = (b1, err) \<Longrightarrow> width b1 = width b \<and> height b1 = height b \<and> state b1 = state b \<and> revealCount b1 = revealCount b \<and> mineCount b1 = mineCount b \<and> fieldInited b1"
  by (auto simp: initField_def Let_def split: if_splits prod.splits)

lemma initField_r_dims:
  "initField_r b x y = (b1, err) \<Longrightarrow> width b1 = width b \<and> height b1 = height b \<and> state b1 = state b \<and> revealCount b1 = revealCount b \<and> randomer b1 = randomer b \<and> fieldInited b1"
  by (auto simp: initField_r_def Let_def split: if_splits prod.splits)

lemma click_reveals_distinct:
  assumes "click rand b x y = (b', Inr r)"
  shows "distinct (map position (reveals r))"
proof (cases "isVaildPosition b x y")
  case False
  with assms show ?thesis by (simp add: click_def)
next
  case True
  obtain b1 err where i: "initField rand b x y = (b1, err)" by (cases "initField rand b x y")
  have v1: "isVaildPosition b1 x y"
    using initField_dims [OF i] True by (simp add: isVaildPosition_def)
  from assms True i have "err = None" by (cases err) (auto simp: click_unfold)
  with assms True i have
    "click_body (\<lambda>b3. int (revealCount b3) = width b3 * height b3 - mineCount b3) b1 x y = (b', Inr r)"
    by (simp add: click_unfold)
  from click_body_distinct [OF this v1] show ?thesis .
qed

lemma click_r_reveals_distinct:
  assumes "click_r b x y = (b', Inr r)"
  shows "distinct (map position (reveals r))"
proof (cases "isVaildPosition b x y")
  case False
  with assms show ?thesis by (simp add: click_r_def)
next
  case True
  obtain b1 err where i: "initField_r b x y = (b1, err)" by (cases "initField_r b x y")
  have v1: "isVaildPosition b1 x y"
    using initField_r_dims [OF i] True by (simp add: isVaildPosition_def)
  from assms True i have "err = None" by (cases err) (auto simp: click_r_unfold)
  with assms True i have
    "click_body (\<lambda>b3. revealCount b3 = totalSpaceCount b3) b1 x y = (b', Inr r)"
    by (simp add: click_r_unfold)
  from click_body_distinct [OF this v1] show ?thesis .
qed

section \<open>Out-of-bounds clicks and the constructor's check\<close>

text \<open>
  Claim C6. For every board and every \<open>(x, y)\<close> with \<open>x < 0\<close>, \<open>x \<ge> width\<close>, \<open>y < 0\<close> or
  \<open>y \<ge> height\<close>, \<^verbatim>\<open>click(x, y)\<close> fails with the out-of-bounds error and the board is
  the board it was: nothing is initialised, no slot, counter or state is written. This
  holds for the class of both source files, initialised or not.
\<close>

theorem click_out_of_bounds:
  assumes "x < 0 \<or> x \<ge> width b \<or> y < 0 \<or> y \<ge> height b"
    and "x' < 0 \<or> x' \<ge> width b' \<or> y' < 0 \<or> y' \<ge> height b'"
  shows "click rand b x y = (b, Inl OutOfBounds) \<and> click_r b' x' y' = (b', Inl OutOfBounds)"
  using assms by (simp add: click_def click_r_def isVaildPosition_def)

theorem click_out_of_bounds_witness:
  "click (\<lambda>i. 0)
     \<lparr>slots = Map.empty, state = Playing, revealCount = 0, width = 5, height = 5,
      fieldInited = False, mineCount = 3\<rparr> 5 2
   = (\<lparr>slots = Map.empty, state = Playing, revealCount = 0, width = 5, height = 5,
       fieldInited = False, mineCount = 3\<rparr>, Inl OutOfBounds)
   \<and> click_r (new_MineBoard_r 5 5 (\<lambda>x y. x = 1)) 0 (- 1)
   = (new_MineBoard_r 5 5 (\<lambda>x y. x = 1), Inl OutOfBounds)"
  using click_out_of_bounds
    [of 5 "\<lparr>slots = Map.empty, state = Playing, revealCount = 0, width = 5, height = 5,
             fieldInited = False, mineCount = 3\<rparr>" 2
        0 "new_MineBoard_r 5 5 (\<lambda>x y. x = 1)" "- 1" "\<lambda>i. 0"]
  by (simp add: new_MineBoard_r_def)

text \<open>
  Claim C5, as the spec states it: construction with a mine count fails exactly when the
  count is outside \<open>[0, width * height)\<close>. The constructor compares the count with
  \<open>width * height\<close> only, so a negative count is accepted: the statement is false at
  \<^verbatim>\<open>new MineBoard(5, 5, -1)\<close>.
\<close>

theorem new_MineBoard_negative_count_counterexample:
  "\<not> (\<forall>w h mc. (new_MineBoard w h (Count mc) = Inl InvalidConfiguration)
                   \<longleftrightarrow> (mc < 0 \<or> mc \<ge> w * h))"
proof
  assume "\<forall>w h mc. (new_MineBoard w h (Count mc) = Inl InvalidConfiguration)
                     \<longleftrightarrow> (mc < 0 \<or> mc \<ge> w * h)"
  then have "(new_MineBoard 5 5 (Count (- 1)) = Inl InvalidConfiguration)
               \<longleftrightarrow> ((- 1 :: int) < 0 \<or> (- 1 :: int) \<ge> 5 * 5)"
    by blast
  then show False by (simp add: new_MineBoard_def js_times_exact)
qed

text \<open>
  Claim C5, amended. Construction with a mine count fails, with the error of the
  configuration ("Too many mines"), if and only if \<open>mineCount \<ge> width * height\<close> for
  the product that the code computes, \<open>js_times width height\<close>: the exact product when
  its magnitude is at most \<open>2^53\<close>, beyond that the double nearest to it (by
  \<open>dbl_error\<close>, off by at most the fraction \<open>2^-53\<close> of it) or an infinity. It fails in no
  other way, and with every smaller count, a negative one too, it gives the board with
  the arguments as its fields, no slot and nothing initialised. Beyond \<open>2^53\<close> the
  exact product does not decide: \<^verbatim>\<open>new MineBoard(94906267, 94906267, 9007199515875288)\<close>
  fails, with a count below the exact product \<open>9007199515875289\<close>.
\<close>

theorem new_MineBoard_count:
  "((new_MineBoard w h (Count mc) = Inl InvalidConfiguration) \<longleftrightarrow> js_ge mc (js_times w h))
   \<and> (\<bar>w * h\<bar> \<le> 2 ^ 53 \<longrightarrow>
        ((new_MineBoard w h (Count mc) = Inl InvalidConfiguration) \<longleftrightarrow> mc \<ge> w * h))
   \<and> (\<forall>e. new_MineBoard w h (Count mc) = Inl e \<longrightarrow> e = InvalidConfiguration)
   \<and> (\<not> js_ge mc (js_times w h) \<longrightarrow>
        new_MineBoard w h (Count mc)
        = Inr \<lparr>slots = Map.empty, state = Playing, revealCount = 0, width = w, height = h,
               fieldInited = False, mineCount = mc\<rparr>)"
  by (simp add: new_MineBoard_def js_times_exact)

theorem new_MineBoard_count_witness:
  "new_MineBoard 5 5 (Count 25) = Inl InvalidConfiguration
   \<and> new_MineBoard 5 5 (Count (- 1))
     = Inr \<lparr>slots = Map.empty, state = Playing, revealCount = 0, width = 5, height = 5,
            fieldInited = False, mineCount = - 1\<rparr>
   \<and> new_MineBoard 5 5 (Count 24)
     = Inr \<lparr>slots = Map.empty, state = Playing, revealCount = 0, width = 5, height = 5,
            fieldInited = False, mineCount = 24\<rparr>
   \<and> (9007199515875288 :: int) < 94906267 * 94906267
   \<and> new_MineBoard 94906267 94906267 (Count 9007199515875288) = Inl InvalidConfiguration
   \<and> new_MineBoard 94906267 94906267 (Count 9007199515875286)
     = Inr \<lparr>slots = Map.empty, state = Playing, revealCount = 0, width = 94906267,
            height = 94906267, fieldInited = False, mineCount = 9007199515875286\<rparr>"
proof -
  have big: "js_times 94906267 94906267 = Finite 9007199515875288"
    by (simp add: js_times_def dbl_def ulp_large ulp_small roundTiesToEven_def)
  show ?thesis
    using new_MineBoard_count [of 5 5 25] new_MineBoard_count [of 5 5 "- 1"]
      new_MineBoard_count [of 5 5 24]
      new_MineBoard_count [of 94906267 94906267 9007199515875288]
      new_MineBoard_count [of 94906267 94906267 9007199515875286]
    by (simp add: big js_times_exact)
qed

section \<open>The flood-fill and repeated clicks\<close>

text \<open>
  Claim C8. The flood-fill of a click on a safe cell terminates
  (\<open>touchingNoMine_loop\<close> is a total function: the measure \<open>pending\<close> decreases in
  every round), and on a board whose grid positions all hold a slot it returns a list
  rather than an error. Every position of the returned list occurs in it exactly once
  (the list is \<open>distinct\<close>), the list starts from the clicked cell and stays inside the
  grid. A cell whose \<^verbatim>\<open>nearbyMine\<close> is positive puts none of its neighbours on the
  stack: the round that pops it leaves the rest of the stack as it was, and every cell
  of the result but the start is a neighbour of a cell of the result whose count is
  zero. The positions of the \<^verbatim>\<open>reveals\<close> that \<^verbatim>\<open>click\<close> returns are that list, so they
  are distinct as well, in both source files.
\<close>

theorem touchingNoMine_flood_fill:
  assumes "isVaildPosition b ox oy" and "slots b (ox, oy) = Some s0" and "\<not> hasMine s0"
  shows "(covered b \<longrightarrow> (\<exists>res. touchingNoMine b ox oy = Inr res))
    \<and> (\<forall>res. touchingNoMine b ox oy = Inr res \<longrightarrow>
          distinct res \<and> (ox, oy) \<in> set res \<and> set res \<subseteq> grid b
          \<and> (\<forall>p \<in> set res. p = (ox, oy)
                \<or> (\<exists>q \<in> set res. zeroCell b q \<and> p \<in> set (neighbours q))))
    \<and> (\<forall>result stack current s. slots b current = Some s \<and> nearbyMine s > 0 \<longrightarrow>
          touchingNoMine_step b result (stack @ [current]) = Inr (result @ [current], stack))
    \<and> (\<forall>rand c x y c' r. click rand c x y = (c', Inr r) \<longrightarrow> distinct (map position (reveals r)))
    \<and> (\<forall>c x y c' r. click_r c x y = (c', Inr r) \<longrightarrow> distinct (map position (reveals r)))"
proof (intro conjI)
  show "covered b \<longrightarrow> (\<exists>res. touchingNoMine b ox oy = Inr res)"
    using touchingNoMine_total assms by blast
  show "\<forall>res. touchingNoMine b ox oy = Inr res \<longrightarrow>
          distinct res \<and> (ox, oy) \<in> set res \<and> set res \<subseteq> grid b
          \<and> (\<forall>p \<in> set res. p = (ox, oy)
                \<or> (\<exists>q \<in> set res. zeroCell b q \<and> p \<in> set (neighbours q)))"
    using touchingNoMine_result [OF _ assms(1)] by (simp add: floodInv_def)
  show "\<forall>result stack current s. slots b current = Some s \<and> nearbyMine s > 0 \<longrightarrow>
          touchingNoMine_step b result (stack @ [current]) = Inr (result @ [current], stack)"
    by (simp add: touchingNoMine_step_def)
  show "\<forall>rand c x y c' r. click rand c x y = (c', Inr r) \<longrightarrow> distinct (map position (reveals r))"
    using click_reveals_distinct by blast
  show "\<forall>c x y c' r. click_r c x y = (c', Inr r) \<longrightarrow> distinct (map position (reveals r))"
    using click_r_reveals_distinct by blast
qed

theorem touchingNoMine_flood_fill_witness:
  "\<exists>B. new_MineBoard 5 5 (Layout ''_ _ x'') = Inr B
     \<and> isVaildPosition B 0 0 \<and> covered B
     \<and> slots B (0, 0) = Some \<lparr>hasMine = False, nearbyMine = 0, reveal = False\<rparr>
     \<and> touchingNoMine B 0 0 = Inr [(0, 0), (1, 0)]
     \<and> (\<exists>res. touchingNoMine B 0 0 = Inr res \<and> distinct res \<and> (0, 0) \<in> set res)
     \<and> zeroCell B (0, 0) \<and> \<not> zeroCell B (1, 0)
     \<and> touchingNoMine_step B [(0, 0)] ([] @ [(1, 0)]) = Inr ([(0, 0)] @ [(1, 0)], [])"
proof -
  have "\<exists>B s2. new_MineBoard 5 5 (Layout ''_ _ x'') = Inr B
    \<and> width B = 3 \<and> height B = 1
    \<and> slots B (0, 0) = Some \<lparr>hasMine = False, nearbyMine = 0, reveal = False\<rparr>
    \<and> slots B (1, 0) = Some \<lparr>hasMine = False, nearbyMine = 1, reveal = False\<rparr>
    \<and> slots B (2, 0) = Some s2
    \<and> touchingNoMine B 0 0 = Inr [(0, 0), (1, 0)]"
    by (simp add: eval_defs)
  then obtain B s2 where B: "new_MineBoard 5 5 (Layout ''_ _ x'') = Inr B"
    "width B = 3" "height B = 1"
    "slots B (0, 0) = Some \<lparr>hasMine = False, nearbyMine = 0, reveal = False\<rparr>"
    "slots B (1, 0) = Some \<lparr>hasMine = False, nearbyMine = 1, reveal = False\<rparr>"
    "slots B (2, 0) = Some s2"
    "touchingNoMine B 0 0 = Inr [(0, 0), (1, 0)]"
    by blast
  have v: "isVaildPosition B 0 0" using B(2,3) by (simp add: isVaildPosition_def)
  have cov: "covered B"
    using B(2-6) by (simp add: covered_def gridPositions_def upto.simps)
  have "\<not> hasMine \<lparr>hasMine = False, nearbyMine = 0, reveal = False\<rparr>" by simp
  note inst = touchingNoMine_flood_fill [OF v B(4) this]
  from inst cov have 1: "\<exists>res. touchingNoMine B 0 0 = Inr res \<and> distinct res \<and> (0, 0) \<in> set res"
    by fastforce
  from inst have "\<forall>result stack current s. slots B current = Some s \<and> nearbyMine s > 0 \<longrightarrow>
          touchingNoMine_step B result (stack @ [current]) = Inr (result @ [current], stack)"
    by blast
  from this [rule_format, of "(1, 0)" _ "[(0, 0)]" "[]"] B(5)
  have 2: "touchingNoMine_step B [(0, 0)] ([] @ [(1, 0)]) = Inr ([(0, 0)] @ [(1, 0)], [])"
    by simp
  have 3: "zeroCell B (0, 0)" "\<not> zeroCell B (1, 0)" using B(4,5) by (simp_all add: zeroCell_def)
  show ?thesis
    using B(1) v cov B(4) B(7) 1 3 2
    by (intro exI [of _ B] conjI) assumption+
qed

lemma click_body_again:
  assumes "state b = Playing" "isVaildPosition b x y"
    and "slots b (x, y) = Some s" "\<not> hasMine s"
  shows "(covered b \<longrightarrow> (\<exists>b' r. click_body won b x y = (b', Inr r)))
     \<and> (\<forall>b' r. click_body won b x y = (b', Inr r) \<longrightarrow>
           (x, y) \<in> set (map position (reveals r))
           \<and> revealCount b' = revealCount b + length (reveals r)
           \<and> revealCount b < revealCount b')"
proof (intro conjI impI allI)
  assume cov: "covered b"
  from touchingNoMine_total [OF cov assms(2,3,4)] obtain ps where
    ps: "touchingNoMine b x y = Inr ps" by blast
  from touchingNoMine_result [OF ps assms(2)] have "set ps \<subseteq> grid b"
    by (simp add: floodInv_def)
  then have "\<forall>p \<in> set ps. slots b p \<noteq> None" using covered_grid [OF cov] by fastforce
  from click_map_total [OF this] obtain b3 evs where "click_map b ps = (b3, Inr evs)" by blast
  with ps assms show "\<exists>b' r. click_body won b x y = (b', Inr r)"
    by (simp add: click_body_def Let_def)
next
  fix b' r assume c: "click_body won b x y = (b', Inr r)"
  from click_body_reveal [OF assms(3,4,1) c] obtain ps where
    ps: "touchingNoMine b x y = Inr ps" "map position (reveals r) = ps"
    "revealCount b' = revealCount b + length ps" by blast
  from touchingNoMine_result [OF ps(1) assms(2)] have in_ps: "(x, y) \<in> set ps" by simp
  then have "length ps > 0" by auto
  moreover have "length (reveals r) = length ps" using ps(2) by (metis length_map)
  ultimately show "(x, y) \<in> set (map position (reveals r))"
    "revealCount b' = revealCount b + length (reveals r)" "revealCount b < revealCount b'"
    using ps in_ps by simp_all
qed

lemma click_twice_counts: "\<exists>b0 b1 b2 r1 r2.
           new_MineBoard 5 5 (Layout ''_ x _'') = Inr b0
           \<and> click rand b0 0 0 = (b1, Inr r1) \<and> click rand b1 0 0 = (b2, Inr r2)
           \<and> map position (reveals r1) = [(0, 0)] \<and> map position (reveals r2) = [(0, 0)]
           \<and> revealedCells b2 = [(0, 0)] \<and> revealCount b2 = 2"
proof -
  have "\<exists>b0 b1 b2 r1 r2 s0 s1 s2.
           new_MineBoard 5 5 (Layout ''_ x _'') = Inr b0
           \<and> click rand b0 0 0 = (b1, Inr r1) \<and> click rand b1 0 0 = (b2, Inr r2)
           \<and> reveals r1 = [\<lparr>position = (0, 0), ev_nearbyMine = 1\<rparr>]
           \<and> reveals r2 = [\<lparr>position = (0, 0), ev_nearbyMine = 1\<rparr>]
           \<and> width b2 = 3 \<and> height b2 = 1
           \<and> slots b2 (0, 0) = Some s0 \<and> reveal s0
           \<and> slots b2 (1, 0) = Some s1 \<and> \<not> reveal s1
           \<and> slots b2 (2, 0) = Some s2 \<and> \<not> reveal s2
           \<and> revealCount b2 = 2"
    by (simp add: eval_defs)
  then obtain b0 b1 b2 r1 r2 s0 s1 s2 where f:
    "new_MineBoard 5 5 (Layout ''_ x _'') = Inr b0"
    "click rand b0 0 0 = (b1, Inr r1)" "click rand b1 0 0 = (b2, Inr r2)"
    "reveals r1 = [\<lparr>position = (0, 0), ev_nearbyMine = 1\<rparr>]"
    "reveals r2 = [\<lparr>position = (0, 0), ev_nearbyMine = 1\<rparr>]"
    "width b2 = 3" "height b2 = 1"
    "slots b2 (0, 0) = Some s0" "reveal s0"
    "slots b2 (1, 0) = Some s1" "\<not> reveal s1"
    "slots b2 (2, 0) = Some s2" "\<not> reveal s2"
    "revealCount b2 = 2"
    by blast
  have "revealedCells b2 = [(0, 0)]"
    using f(6-13) by (simp add: revealedCells_def gridPositions_def upto.simps)
  with f show ?thesis by (intro exI [of _ b0] exI [of _ b1] exI [of _ b2] exI [of _ r1] exI [of _ r2]) simp
qed

text \<open>
  Claim C9. While the state is playing, a click on a cell that is already revealed and
  holds no mine goes through the flood-fill again: if the call returns, the returned
  \<^verbatim>\<open>reveals\<close> contain that cell once more and \<^verbatim>\<open>revealCount\<close> has grown by the length
  of \<^verbatim>\<open>reveals\<close>, so by one at least, for a cell counted before; and the call does
  return on a board whose grid positions all hold a slot. So \<^verbatim>\<open>revealCount\<close> can exceed
  the number of distinct revealed cells: on the layout \<^verbatim>\<open>"_ x _"\<close>, after two clicks on
  \<open>(0, 0)\<close> one cell is revealed and \<^verbatim>\<open>revealCount\<close> is 2.
\<close>

theorem click_revealed_cell_again:
  assumes "fieldInited b" "state b = Playing" "isVaildPosition b x y"
    and "slots b (x, y) = Some s" "\<not> hasMine s" "reveal s"
    and "fieldInited c" "state c = Playing" "isVaildPosition c x' y'"
    and "slots c (x', y') = Some s'" "\<not> hasMine s'" "reveal s'"
  shows "(covered b \<longrightarrow> (\<exists>b' r. click rand b x y = (b', Inr r)))
     \<and> (\<forall>b' r. click rand b x y = (b', Inr r) \<longrightarrow>
           (x, y) \<in> set (map position (reveals r))
           \<and> revealCount b' = revealCount b + length (reveals r)
           \<and> revealCount b < revealCount b')
     \<and> (covered c \<longrightarrow> (\<exists>c' r. click_r c x' y' = (c', Inr r)))
     \<and> (\<forall>c' r. click_r c x' y' = (c', Inr r) \<longrightarrow>
           (x', y') \<in> set (map position (reveals r))
           \<and> revealCount c' = revealCount c + length (reveals r)
           \<and> revealCount c < revealCount c')
     \<and> (\<exists>b0 b1 b2 r1 r2.
           new_MineBoard 5 5 (Layout ''_ x _'') = Inr b0
           \<and> click rand b0 0 0 = (b1, Inr r1) \<and> click rand b1 0 0 = (b2, Inr r2)
           \<and> map position (reveals r1) = [(0, 0)] \<and> map position (reveals r2) = [(0, 0)]
           \<and> revealedCells b2 = [(0, 0)] \<and> revealCount b2 = 2)"
proof -
  have cb: "click rand b x y
      = click_body (\<lambda>b3. int (revealCount b3) = width b3 * height b3 - mineCount b3) b x y"
    using assms(1,3) by (simp add: click_unfold initField_def)
  have cc: "click_r c x' y' = click_body (\<lambda>b3. revealCount b3 = totalSpaceCount b3) c x' y'"
    using assms(7,9) by (simp add: click_r_unfold initField_r_def)
  note 1 = click_body_again [OF assms(2,3,4,5), of "\<lambda>b3. int (revealCount b3) = width b3 * height b3 - mineCount b3", folded cb]
  note 2 = click_body_again [OF assms(8,9,10,11), of "\<lambda>b3. revealCount b3 = totalSpaceCount b3", folded cc]
  from 1 2 click_twice_counts [of rand] show ?thesis
    by (intro conjI) (rule conjunct1, assumption, rule conjunct2, assumption, rule conjunct1, assumption, rule conjunct2, assumption, assumption)
qed

theorem click_revealed_cell_again_witness:
  "\<exists>b0 b1 c1 r0 r0' s s'.
     new_MineBoard 5 5 (Layout ''_ x _'') = Inr b0
     \<and> click (\<lambda>i. 0) b0 0 0 = (b1, Inr r0)
     \<and> click_r (new_MineBoard_r 3 1 (\<lambda>x y. x = 1)) 0 0 = (c1, Inr r0')
     \<and> fieldInited b1 \<and> state b1 = Playing \<and> isVaildPosition b1 0 0
     \<and> slots b1 (0, 0) = Some s \<and> \<not> hasMine s \<and> reveal s \<and> covered b1
     \<and> fieldInited c1 \<and> state c1 = Playing \<and> isVaildPosition c1 0 0
     \<and> slots c1 (0, 0) = Some s' \<and> \<not> hasMine s' \<and> reveal s' \<and> covered c1
     \<and> (\<exists>b' r. click (\<lambda>i. 0) b1 0 0 = (b', Inr r)
            \<and> (0, 0) \<in> set (map position (reveals r))
            \<and> revealCount b' = revealCount b1 + length (reveals r)
            \<and> revealCount b1 < revealCount b')
     \<and> (\<exists>c' r. click_r c1 0 0 = (c', Inr r)
            \<and> (0, 0) \<in> set (map position (reveals r))
            \<and> revealCount c' = revealCount c1 + length (reveals r)
            \<and> revealCount c1 < revealCount c')"
proof -
  have "\<exists>b0 b1 r0 s s1 s2.
     new_MineBoard 5 5 (Layout ''_ x _'') = Inr b0
     \<and> click (\<lambda>i. 0) b0 0 0 = (b1, Inr r0)
     \<and> fieldInited b1 \<and> state b1 = Playing \<and> width b1 = 3 \<and> height b1 = 1
     \<and> slots b1 (0, 0) = Some s \<and> \<not> hasMine s \<and> reveal s
     \<and> slots b1 (1, 0) = Some s1 \<and> slots b1 (2, 0) = Some s2"
    by (simp add: eval_defs)
  then obtain b0 b1 r0 s s1 s2 where b:
    "new_MineBoard 5 5 (Layout ''_ x _'') = Inr b0"
    "click (\<lambda>i. 0) b0 0 0 = (b1, Inr r0)"
    "fieldInited b1" "state b1 = Playing" "width b1 = 3" "height b1 = 1"
    "slots b1 (0, 0) = Some s" "\<not> hasMine s" "reveal s"
    "slots b1 (1, 0) = Some s1" "slots b1 (2, 0) = Some s2"
    by blast
  have "\<exists>c1 r0' s' s1' s2'.
     click_r (new_MineBoard_r 3 1 (\<lambda>x y. x = 1)) 0 0 = (c1, Inr r0')
     \<and> fieldInited c1 \<and> state c1 = Playing \<and> width c1 = 3 \<and> height c1 = 1
     \<and> slots c1 (0, 0) = Some s' \<and> \<not> hasMine s' \<and> reveal s'
     \<and> slots c1 (1, 0) = Some s1' \<and> slots c1 (2, 0) = Some s2'"
    by (simp add: eval_defs_r)
  then obtain c1 r0' s' s1' s2' where c:
    "click_r (new_MineBoard_r 3 1 (\<lambda>x y. x = 1)) 0 0 = (c1, Inr r0')"
    "fieldInited c1" "state c1 = Playing" "width c1 = 3" "height c1 = 1"
    "slots c1 (0, 0) = Some s'" "\<not> hasMine s'" "reveal s'"
    "slots c1 (1, 0) = Some s1'" "slots c1 (2, 0) = Some s2'"
    by blast
  have vb: "isVaildPosition b1 0 0" using b(5,6) by (simp add: isVaildPosition_def)
  have vc: "isVaildPosition c1 0 0" using c(4,5) by (simp add: isVaildPosition_def)
  have covb: "covered b1"
    using b(5-7,10,11) by (simp add: covered_def gridPositions_def upto.simps)
  have covc: "covered c1"
    using c(4-6,9,10) by (simp add: covered_def gridPositions_def upto.simps)
  note inst = click_revealed_cell_again
    [OF b(3) b(4) vb b(7) b(8) b(9) c(2) c(3) vc c(6) c(7) c(8), of "\<lambda>i. 0"]
  from inst covb have 1: "\<exists>b' r. click (\<lambda>i. 0) b1 0 0 = (b', Inr r)
            \<and> (0, 0) \<in> set (map position (reveals r))
            \<and> revealCount b' = revealCount b1 + length (reveals r)
            \<and> revealCount b1 < revealCount b'"
    by blast
  from inst covc have 2: "\<exists>c' r. click_r c1 0 0 = (c', Inr r)
            \<and> (0, 0) \<in> set (map position (reveals r))
            \<and> revealCount c' = revealCount c1 + length (reveals r)
            \<and> revealCount c1 < revealCount c'"
    by blast
  show ?thesis
    using b(1,2) c(1) b(3,4) vb b(7-9) covb c(2,3) vc c(6-8) covc 1 2
    by (rule_tac exI [of _ b0], rule_tac exI [of _ b1], rule_tac exI [of _ c1],
        rule_tac exI [of _ r0], rule_tac exI [of _ r0'], rule_tac exI [of _ s],
        rule_tac exI [of _ s'], intro conjI) assumption+
qed

section \<open>Initialisation and the first click\<close>

lemma sameMines_refl: "sameMines sl sl"
  by (simp add: sameMines_def split: option.splits)

lemma sameMines_None: "sameMines sl sl' \<Longrightarrow> sl p = None \<Longrightarrow> sl' p = None"
proof -
  assume a: "sameMines sl sl'" "sl p = None"
  from a(1) have "case sl p of None \<Rightarrow> sl' p = None
                  | Some s \<Rightarrow> (\<exists>s'. sl' p = Some s' \<and> hasMine s' = hasMine s)"
    unfolding sameMines_def by (rule spec)
  with a(2) show ?thesis by simp
qed

lemma sameMines_Some:
  "sameMines sl sl' \<Longrightarrow> sl p = Some s \<Longrightarrow> \<exists>s'. sl' p = Some s' \<and> hasMine s' = hasMine s"
proof -
  assume a: "sameMines sl sl'" "sl p = Some s"
  from a(1) have "case sl p of None \<Rightarrow> sl' p = None
                  | Some s \<Rightarrow> (\<exists>s'. sl' p = Some s' \<and> hasMine s' = hasMine s)"
    unfolding sameMines_def by (rule spec)
  with a(2) show ?thesis by simp
qed

lemma sameMines_trans:
  assumes "sameMines sl sl'" "sameMines sl' sl''"
  shows "sameMines sl sl''"
  unfolding sameMines_def
proof
  fix p
  show "case sl p of None \<Rightarrow> sl'' p = None
        | Some s \<Rightarrow> (\<exists>s'. sl'' p = Some s' \<and> hasMine s' = hasMine s)"
  proof (cases "sl p")
    case None
    then have "sl' p = None" using assms(1) by (rule sameMines_None [rotated])
    then have "sl'' p = None" using assms(2) by (rule sameMines_None [rotated])
    with None show ?thesis by simp
  next
    case (Some s)
    from sameMines_Some [OF assms(1) Some] obtain s' where
      s': "sl' p = Some s'" "hasMine s' = hasMine s" by blast
    from sameMines_Some [OF assms(2) s'(1)] obtain s'' where
      "sl'' p = Some s''" "hasMine s'' = hasMine s'" by blast
    with Some s' show ?thesis by simp
  qed
qed

lemma sameMines_upd:
  "sl p = Some s \<Longrightarrow> hasMine s' = hasMine s \<Longrightarrow> sameMines sl (sl(p \<mapsto> s'))"
  by (simp add: sameMines_def split: option.splits)

lemma initNearbyMine_loop_sameMines:
  "initNearbyMine_loop sl ps = (sl', err) \<Longrightarrow> sameMines sl sl'"
proof (induction ps arbitrary: sl)
  case Nil
  then show ?case by (simp add: sameMines_refl)
next
  case (Cons p ps)
  obtain i j where p: "p = (i, j)" by (cases p)
  show ?case
  proof (cases "sl (i, j)")
    case None
    with Cons.prems p show ?thesis by (simp add: sameMines_refl)
  next
    case (Some s)
    let ?sl1 = "sl((i, j) \<mapsto> s\<lparr>nearbyMine := nearByMine sl i j\<rparr>)"
    from Cons.prems p Some have "initNearbyMine_loop ?sl1 ps = (sl', err)" by simp
    then have "sameMines ?sl1 sl'" by (rule Cons.IH)
    moreover have "sameMines sl ?sl1" using Some by (intro sameMines_upd) simp_all
    ultimately show ?thesis using sameMines_trans by blast
  qed
qed

lemma sameCells_refl: "sameCells sl sl"
  by (simp add: sameCells_def split: option.splits)

lemma sameCells_None: "sameCells sl sl' \<Longrightarrow> sl p = None \<Longrightarrow> sl' p = None"
proof -
  assume a: "sameCells sl sl'" "sl p = None"
  from a(1) have "case sl p of None \<Rightarrow> sl' p = None
                  | Some s \<Rightarrow> (\<exists>s'. sl' p = Some s' \<and> hasMine s' = hasMine s
                                    \<and> nearbyMine s' = nearbyMine s)"
    unfolding sameCells_def by (rule spec)
  with a(2) show ?thesis by simp
qed

lemma sameCells_Some:
  "sameCells sl sl' \<Longrightarrow> sl p = Some s
   \<Longrightarrow> \<exists>s'. sl' p = Some s' \<and> hasMine s' = hasMine s \<and> nearbyMine s' = nearbyMine s"
proof -
  assume a: "sameCells sl sl'" "sl p = Some s"
  from a(1) have "case sl p of None \<Rightarrow> sl' p = None
                  | Some s \<Rightarrow> (\<exists>s'. sl' p = Some s' \<and> hasMine s' = hasMine s
                                    \<and> nearbyMine s' = nearbyMine s)"
    unfolding sameCells_def by (rule spec)
  with a(2) show ?thesis by simp
qed

lemma sameCells_trans:
  assumes "sameCells sl sl'" "sameCells sl' sl''"
  shows "sameCells sl sl''"
  unfolding sameCells_def
proof
  fix p
  show "case sl p of None \<Rightarrow> sl'' p = None
        | Some s \<Rightarrow> (\<exists>s'. sl'' p = Some s' \<and> hasMine s' = hasMine s
                          \<and> nearbyMine s' = nearbyMine s)"
  proof (cases "sl p")
    case None
    then have "sl' p = None" using assms(1) by (rule sameCells_None [rotated])
    then have "sl'' p = None" using assms(2) by (rule sameCells_None [rotated])
    with None show ?thesis by simp
  next
    case (Some s)
    from sameCells_Some [OF assms(1) Some] obtain s' where
      s': "sl' p = Some s'" "hasMine s' = hasMine s" "nearbyMine s' = nearbyMine s" by blast
    from sameCells_Some [OF assms(2) s'(1)] obtain s'' where
      "sl'' p = Some s''" "hasMine s'' = hasMine s'" "nearbyMine s'' = nearbyMine s'" by blast
    with Some s' show ?thesis by simp
  qed
qed

lemma sameCells_upd:
  "sl p = Some s \<Longrightarrow> hasMine s' = hasMine s \<Longrightarrow> nearbyMine s' = nearbyMine s
   \<Longrightarrow> sameCells sl (sl(p \<mapsto> s'))"
  by (simp add: sameCells_def split: option.splits)

lemma sameCells_sameMines: "sameCells sl sl' \<Longrightarrow> sameMines sl sl'"
  unfolding sameMines_def
proof
  fix p assume a: "sameCells sl sl'"
  show "case sl p of None \<Rightarrow> sl' p = None
        | Some s \<Rightarrow> (\<exists>s'. sl' p = Some s' \<and> hasMine s' = hasMine s)"
  proof (cases "sl p")
    case None
    with sameCells_None [OF a None] show ?thesis by simp
  next
    case (Some s)
    with sameCells_Some [OF a Some] show ?thesis by auto
  qed
qed

lemma click_map_sameCells:
  "click_map b ps = (b', r) \<Longrightarrow> sameCells (slots b) (slots b')"
proof (induction ps arbitrary: b b' r)
  case Nil
  then show ?case by (simp add: sameCells_refl)
next
  case (Cons p ps)
  show ?case
  proof (cases "slots b p")
    case None
    with Cons.prems show ?thesis by (simp add: sameCells_refl)
  next
    case (Some slot)
    let ?b1 = "b\<lparr>slots := (slots b)(p \<mapsto> slot\<lparr>reveal := True\<rparr>), revealCount := revealCount b + 1\<rparr>"
    obtain b2 r2 where r: "click_map ?b1 ps = (b2, r2)" by (cases "click_map ?b1 ps")
    with Cons.prems Some have "b' = b2" by (cases r2) auto
    moreover from Cons.IH [OF r] have "sameCells (slots ?b1) (slots b2)" .
    moreover have "sameCells (slots b) (slots ?b1)"
      using Some by (simp add: sameCells_upd)
    ultimately show ?thesis using sameCells_trans by blast
  qed
qed

lemma click_body_sameCells:
  "sameCells (slots b) (slots (fst (click_body won b x y)))"
proof (cases "slots b (x, y)")
  case None
  then show ?thesis by (simp add: click_body_def sameCells_refl)
next
  case (Some s)
  let ?b2 = "if hasMine s then b\<lparr>state := Dead\<rparr> else b"
  have s2: "slots ?b2 = slots b" by simp
  show ?thesis
  proof (cases "state ?b2 \<noteq> Playing")
    case True
    with Some show ?thesis by (auto simp: click_body_def Let_def sameCells_refl)
  next
    case False
    show ?thesis
    proof (cases "touchingNoMine ?b2 x y")
      case (Inl e)
      with Some False show ?thesis by (auto simp: click_body_def Let_def sameCells_refl)
    next
      case (Inr ps)
      obtain b3 r3 where cm: "click_map ?b2 ps = (b3, r3)" by (cases "click_map ?b2 ps")
      from click_map_sameCells [OF cm] s2 have sm: "sameCells (slots b) (slots b3)" by simp
      have "slots (fst (click_body won b x y)) = slots b3"
        using Some False Inr cm by (cases r3) (auto simp: click_body_def Let_def)
      with sm show ?thesis by simp
    qed
  qed
qed

lemma click_map_sameMines:
  "click_map b ps = (b', r) \<Longrightarrow> sameMines (slots b) (slots b')"
  by (rule sameCells_sameMines) (rule click_map_sameCells)

lemma click_body_sameMines:
  "sameMines (slots b) (slots (fst (click_body won b x y)))"
  by (rule sameCells_sameMines) (rule click_body_sameCells)

lemma initField_forEach_last:
  "initField_forEach sl mc i (ps @ [p]) p = Some (new_MineSlot (i + int (length ps) < mc))"
proof (induction ps arbitrary: sl i)
  case Nil
  then show ?case by simp
next
  case (Cons q ps)
  have "initField_forEach sl mc i ((q # ps) @ [p]) p
        = initField_forEach (sl(q \<mapsto> new_MineSlot (i < mc))) mc (i + 1) (ps @ [p]) p"
    by simp
  also have "\<dots> = Some (new_MineSlot (i + 1 + int (length ps) < mc))"
    by (rule Cons.IH)
  also have "i + 1 + int (length ps) = i + int (length (q # ps))" by simp
  finally show ?case .
qed

lemma length_shuffle: "length (shuffle rand k xs) = length xs"
  by (induction k arbitrary: xs) (simp_all add: Let_def)

lemma filter_neq_length:
  assumes "distinct xs"
  shows "length xs \<le> Suc (length (filter (\<lambda>p. p \<noteq> c) xs))"
proof -
  have "length (filter (\<lambda>p. p = c) xs) \<le> 1"
    using assms by (induction xs) (auto simp: filter_empty_conv)
  moreover have "length (filter (\<lambda>p. p \<noteq> c) xs) + length (filter (\<lambda>p. \<not> p \<noteq> c) xs) = length xs"
    by (rule sum_length_filter_compl)
  ultimately show ?thesis by simp
qed

lemma candidatePositions_square_distinct:
  assumes "0 < n"
  shows "distinct (candidatePositions n n len)"
proof -
  have "inj (\<lambda>index :: int. (index div n, index mod n))"
  proof (rule injI)
    fix i j :: int
    assume "(i div n, i mod n) = (j div n, j mod n)"
    then have e: "i div n = j div n" "i mod n = j mod n" by simp_all
    have "i = i div n * n + i mod n" by (rule div_mult_mod_eq [symmetric])
    also have "\<dots> = j div n * n + j mod n" by (simp only: e)
    also have "\<dots> = j" by (rule div_mult_mod_eq)
    finally show "i = j" .
  qed
  then have "inj_on (\<lambda>index :: int. (index div n, index mod n)) (set [0..len - 1])"
    by (rule inj_on_subset) simp
  moreover have "distinct [0..len - 1]" by (rule distinct_upto)
  ultimately show ?thesis
    unfolding candidatePositions_def distinct_map by blast
qed

lemma length_candidatePositions: "length (candidatePositions w h len) = nat len"
  by (simp add: candidatePositions_def)

lemma set_candidatePositions_square:
  assumes "0 < n"
  shows "set (candidatePositions n n (n * n)) = {0..<n} \<times> {0..<n}"
proof (rule set_eqI)
  fix p :: Position
  obtain a b where p: "p = (a, b)" by (cases p)
  show "p \<in> set (candidatePositions n n (n * n)) \<longleftrightarrow> p \<in> {0..<n} \<times> {0..<n}"
  proof
    assume "p \<in> set (candidatePositions n n (n * n))"
    then obtain i where i: "0 \<le> i" "i \<le> n * n - 1" "a = i div n" "b = i mod n"
      using p by (auto simp: candidatePositions_def)
    have "i div n * n + i mod n = i" by (rule div_mult_mod_eq)
    moreover have m: "0 \<le> i mod n" "i mod n < n" using assms by simp_all
    ultimately have "i div n * n < n * n" using i(2) by linarith
    then have "i div n < n" using assms by (simp add: mult_less_cancel_right)
    moreover have "0 \<le> i div n" using i(1) assms by (simp add: pos_imp_zdiv_nonneg_iff)
    ultimately show "p \<in> {0..<n} \<times> {0..<n}" using p i(3,4) m by simp
  next
    assume "p \<in> {0..<n} \<times> {0..<n}"
    then have ab: "0 \<le> a" "a < n" "0 \<le> b" "b < n" using p by simp_all
    let ?i = "a * n + b"
    have "a * n \<le> (n - 1) * n" using ab(2) assms by (intro mult_right_mono) simp_all
    then have "?i \<le> n * n - 1" using ab(4) by (simp add: algebra_simps)
    moreover have "0 \<le> ?i" using ab assms by simp
    moreover have "?i div n = a" using ab assms by simp
    moreover have "?i mod n = b" using ab assms by simp
    ultimately have "(a, b) \<in> (\<lambda>index. (index div n, index mod n)) ` {0..n * n - 1}"
      by (intro image_eqI [of _ _ ?i]) simp_all
    then show "p \<in> set (candidatePositions n n (n * n))"
      using p by (simp add: candidatePositions_def)
  qed
qed

text \<open>
  \<^verbatim>\<open>initField\<close> on a square board of at most \<open>2^32 - 1\<close> cells: the array is created, the
  clicked position is one of the candidates, so \<^verbatim>\<open>push\<close> finds room. On a board of more
  cells the call throws and leaves no slot.
\<close>

lemma initField_square:
  assumes "\<not> fieldInited b" "isVaildPosition b x y" "width b = height b"
    and "width b * height b \<le> 2 ^ 32 - 1"
  shows "initField rand b x y =
     (let positions = filter (\<lambda>pos. pos \<noteq> (x, y))
                        (candidatePositions (width b) (height b) (width b * height b));
          positions = shuffle rand (length positions - 1) positions;
          positions = positions @ [(x, y)];
          sl = initField_forEach (slots b) (mineCount b) 0 positions;
          (sl', err) = initNearbyMine sl (width b) (height b)
      in (b\<lparr>fieldInited := True, slots := sl'\<rparr>, err))"
proof -
  let ?n = "width b"
  let ?cands = "filter (\<lambda>pos. pos \<noteq> (x, y)) (candidatePositions ?n ?n (?n * ?n))"
  have xy: "0 \<le> x" "x < ?n" "0 \<le> y" "y < ?n"
    using assms(2,3) by (simp_all add: isVaildPosition_def)
  then have n: "0 < ?n" by simp
  then have pos: "0 < ?n * ?n" by simp
  have len: "toLength (js_times ?n ?n) = ?n * ?n"
    using toLength_js_times_small [of ?n ?n] assms(3,4) pos by simp
  have "(x, y) \<in> set (candidatePositions ?n ?n (?n * ?n))"
    using set_candidatePositions_square [OF n] xy by simp
  then have "length ?cands < length (candidatePositions ?n ?n (?n * ?n))"
    by (intro length_filter_less) simp_all
  then have "int (length ?cands) < ?n * ?n" using pos by (simp add: length_candidatePositions)
  then have room: "\<not> 2 ^ 32 - 1 \<le> int (length (shuffle rand (length ?cands - 1) ?cands))"
    using assms(3,4) by (simp add: length_shuffle)
  have fits: "\<not> 2 ^ 32 - 1 < ?n * ?n" using assms(3,4) by simp
  show ?thesis
    unfolding initField_def Let_def assms(3) [symmetric] len
    using assms(1) room fits by (simp only: if_False)
qed

lemma initField_too_large:
  assumes "\<not> fieldInited b" "2 ^ 32 - 1 < width b * height b"
  shows "initField rand b x y = (b\<lparr>fieldInited := True\<rparr>, Some RangeError)"
  using assms(1) toLength_js_times_large [OF assms(2)] by (simp add: initField_def Let_def)

lemma initField_r_loop_click:
  "sl (x, y) = Some (new_MineSlot False) \<or> (x, y) \<in> set ps
   \<Longrightarrow> fst (initField_r_loop r (x, y) sl tsc ps) (x, y) = Some (new_MineSlot False)"
proof (induction ps arbitrary: sl tsc)
  case Nil
  then show ?case by simp
next
  case (Cons q ps)
  obtain i j where q: "q = (i, j)" by (cases q)
  let ?hm = "if (i, j) = (x, y) then False else r i j"
  let ?sl1 = "sl((i, j) \<mapsto> new_MineSlot ?hm)"
  have "?sl1 (x, y) = Some (new_MineSlot False) \<or> (x, y) \<in> set ps"
    using Cons.prems q by auto
  from Cons.IH [of ?sl1 "if \<not> ?hm then tsc + 1 else tsc", OF this]
  have "fst (initField_r_loop r (x, y) ?sl1 (if \<not> ?hm then tsc + 1 else tsc) ps) (x, y)
        = Some (new_MineSlot False)" .
  moreover have "initField_r_loop r (x, y) sl tsc (q # ps)
        = initField_r_loop r (x, y) ?sl1 (if \<not> ?hm then tsc + 1 else tsc) ps"
    unfolding q by (simp only: initField_r_loop.simps Let_def)
  ultimately show ?case by (simp only:)
qed

lemma initField_r_first:
  assumes "\<not> fieldInited b" "isVaildPosition b x y"
  shows "\<exists>s. slots (fst (initField_r b x y)) (x, y) = Some s \<and> \<not> hasMine s"
proof -
  obtain sl tsc where l: "initField_r_loop (randomer b) (x, y) (slots b) (totalSpaceCount b)
                            (gridPositions (width b) (height b)) = (sl, tsc)"
    by (cases "initField_r_loop (randomer b) (x, y) (slots b) (totalSpaceCount b)
                 (gridPositions (width b) (height b))")
  obtain sl' err where n: "initNearbyMine sl (width b) (height b) = (sl', err)"
    by (cases "initNearbyMine sl (width b) (height b)")
  have "(x, y) \<in> set (gridPositions (width b) (height b))"
    using assms(2) by (auto simp: set_gridPositions isVaildPosition_def)
  then have "fst (initField_r_loop (randomer b) (x, y) (slots b) (totalSpaceCount b)
                    (gridPositions (width b) (height b))) (x, y) = Some (new_MineSlot False)"
    by (intro initField_r_loop_click) simp
  with l have "sl (x, y) = Some (new_MineSlot False)" by simp
  moreover have "sameMines sl sl'"
    using n unfolding initNearbyMine_def by (rule initNearbyMine_loop_sameMines)
  ultimately obtain s where "sl' (x, y) = Some s" "hasMine s = hasMine (new_MineSlot False)"
    using sameMines_Some by blast
  moreover have "slots (fst (initField_r b x y)) = sl'"
    using assms(1) l n by (simp add: initField_r_def)
  ultimately show ?thesis by (simp add: new_MineSlot_def)
qed

lemma initField_first:
  assumes "\<not> fieldInited b" "isVaildPosition b x y" "width b = height b"
    and "mineCount b < width b * height b" and "width b * height b \<le> 2 ^ 32 - 1"
  shows "\<exists>s. slots (fst (initField rand b x y)) (x, y) = Some s \<and> \<not> hasMine s"
proof -
  let ?n = "width b"
  let ?cands = "filter (\<lambda>pos. pos \<noteq> (x, y)) (candidatePositions ?n ?n (?n * ?n))"
  let ?shuffled = "shuffle rand (length ?cands - 1) ?cands"
  let ?sl = "initField_forEach (slots b) (mineCount b) 0 (?shuffled @ [(x, y)])"
  have n: "0 < ?n" using assms(2) by (simp add: isVaildPosition_def)
  have "length (candidatePositions ?n ?n (?n * ?n)) \<le> Suc (length ?cands)"
    using candidatePositions_square_distinct [OF n] by (rule filter_neq_length)
  then have "nat (?n * ?n) \<le> Suc (length ?cands)"
    by (simp add: length_candidatePositions)
  then have "?n * ?n - 1 \<le> int (length ?cands)" by linarith
  moreover have "mineCount b \<le> ?n * ?n - 1" using assms(3,4) by simp
  ultimately have "\<not> (0 + int (length ?shuffled) < mineCount b)"
    by (simp add: length_shuffle)
  moreover have "?sl (x, y) = Some (new_MineSlot (0 + int (length ?shuffled) < mineCount b))"
    by (rule initField_forEach_last)
  ultimately have sl: "?sl (x, y) = Some (new_MineSlot False)"
    by simp
  obtain sl' err where i: "initNearbyMine ?sl ?n ?n = (sl', err)"
    by (cases "initNearbyMine ?sl ?n ?n")
  have "sameMines ?sl sl'"
    using i unfolding initNearbyMine_def by (rule initNearbyMine_loop_sameMines)
  with sl obtain s where "sl' (x, y) = Some s" "hasMine s = hasMine (new_MineSlot False)"
    using sameMines_Some by blast
  moreover have "slots (fst (initField rand b x y)) = sl'"
    using assms(3) i by (simp add: initField_square [OF assms(1,2,3,5)] Let_def)
  ultimately show ?thesis by (simp add: new_MineSlot_def)
qed

text \<open>Whatever \<^verbatim>\<open>click\<close> does after \<^verbatim>\<open>initField\<close>, the mines stay where they are.\<close>

lemma click_after_init:
  "sameMines (slots (fst (initField rand b x y))) (slots (fst (click rand b x y)))
   \<or> \<not> isVaildPosition b x y"
proof (cases "isVaildPosition b x y")
  case False
  then show ?thesis by simp
next
  case True
  obtain b1 err where i: "initField rand b x y = (b1, err)" by (cases "initField rand b x y")
  show ?thesis
  proof (cases err)
    case None
    with True i show ?thesis
      using click_body_sameMines [of b1 _ x y] by (simp add: click_unfold)
  next
    case (Some e)
    with True i show ?thesis by (simp add: click_unfold sameMines_refl)
  qed
qed

lemma click_r_after_init:
  "sameMines (slots (fst (initField_r b x y))) (slots (fst (click_r b x y)))
   \<or> \<not> isVaildPosition b x y"
proof (cases "isVaildPosition b x y")
  case False
  then show ?thesis by simp
next
  case True
  obtain b1 err where i: "initField_r b x y = (b1, err)" by (cases "initField_r b x y")
  show ?thesis
  proof (cases err)
    case None
    with True i show ?thesis
      using click_body_sameMines [of b1 _ x y] by (simp add: click_r_unfold)
  next
    case (Some e)
    with True i show ?thesis by (simp add: click_r_unfold sameMines_refl)
  qed
qed

lemma new_MineBoard_Layout_inited:
  "new_MineBoard w h (Layout str) = Inr c \<Longrightarrow> fieldInited c"
  by (auto simp: new_MineBoard_def Let_def split: list.splits prod.splits option.splits)

lemma click_inited_sameMines:
  assumes "fieldInited c"
  shows "sameMines (slots c) (slots (fst (click rand c x y)))"
proof (cases "isVaildPosition c x y")
  case False
  then show ?thesis by (simp add: click_def sameMines_refl)
next
  case True
  have "initField rand c x y = (c, None)" using assms by (simp add: initField_def)
  with click_after_init [of rand c x y] True show ?thesis by simp
qed

text \<open>
  Claim C3, as the spec states it: in every construction mode, after the first click
  the clicked cell holds no mine. A board built from a layout is initialised by the
  constructor (\<^verbatim>\<open>fieldInited = true\<close>), so \<^verbatim>\<open>initField\<close> does nothing at the first click
  and the layout's mine stays: on the layout \<^verbatim>\<open>"x _"\<close>, after the first click
  \<^verbatim>\<open>click(0, 0)\<close> the clicked cell holds a mine.
\<close>

theorem first_click_on_layout_mine_counterexample:
  "\<forall>rand. \<exists>b0 b1 r s.
     new_MineBoard 5 5 (Layout ''x _'') = Inr b0 \<and> isVaildPosition b0 0 0
     \<and> state b0 = Playing \<and> revealCount b0 = 0
     \<and> click rand b0 0 0 = (b1, r) \<and> slots b1 (0, 0) = Some s \<and> hasMine s"
  by (simp add: eval_defs)

text \<open>
  Claim C3, amended. After the first click on a board built with a predicate, and after
  the first click on a square board (\<open>width = height\<close>) of at most \<open>2^32 - 1\<close> cells
  built with a target mine count below \<open>width * height\<close>, the clicked cell, for every
  position inside the grid and every outcome of the shuffle, holds a slot without a
  mine, whether the call returns or throws. On a square board of more cells the array
  of candidates cannot be created: the first click throws a \<open>RangeError\<close> and the clicked
  cell holds no slot. A board built from a layout is initialised by its constructor, and
  a click leaves every slot's \<^verbatim>\<open>hasMine\<close> as the layout set it.
\<close>

theorem first_click_is_safe:
  "(isVaildPosition (new_MineBoard_r w h r) x y \<longrightarrow>
      (\<exists>s. slots (fst (click_r (new_MineBoard_r w h r) x y)) (x, y) = Some s \<and> \<not> hasMine s))
   \<and> (new_MineBoard n n (Count mc) = Inr b \<and> isVaildPosition b x y \<longrightarrow>
      (n * n \<le> 2 ^ 32 - 1 \<longrightarrow>
         (\<exists>s. slots (fst (click rand b x y)) (x, y) = Some s \<and> \<not> hasMine s))
      \<and> (2 ^ 32 - 1 < n * n \<longrightarrow>
         click rand b x y = (b\<lparr>fieldInited := True\<rparr>, Inl RangeError)
         \<and> slots (fst (click rand b x y)) (x, y) = None))
   \<and> (new_MineBoard w' h' (Layout str) = Inr c \<and> slots c p = Some s0 \<longrightarrow>
      fieldInited c
      \<and> (\<exists>s. slots (fst (click rand c x y)) p = Some s \<and> hasMine s = hasMine s0))"
proof (intro conjI impI)
  let ?c = "new_MineBoard_r w h r"
  assume v: "isVaildPosition ?c x y"
  have "\<not> fieldInited ?c" by (simp add: new_MineBoard_r_def)
  from initField_r_first [OF this v] obtain s where
    "slots (fst (initField_r ?c x y)) (x, y) = Some s" "\<not> hasMine s" by blast
  moreover have "sameMines (slots (fst (initField_r ?c x y))) (slots (fst (click_r ?c x y)))"
    using click_r_after_init [of ?c x y] v by simp
  ultimately show "\<exists>s. slots (fst (click_r ?c x y)) (x, y) = Some s \<and> \<not> hasMine s"
    using sameMines_Some by fastforce
next
  assume a: "new_MineBoard n n (Count mc) = Inr b \<and> isVaildPosition b x y"
    and small: "n * n \<le> 2 ^ 32 - 1"
  from a have b: "\<not> fieldInited b" "width b = n" "height b = n" "mineCount b = mc"
    "\<not> js_ge mc (js_times n n)"
    by (auto simp: new_MineBoard_def split: if_splits)
  have "\<bar>n * n\<bar> \<le> 2 ^ 53" using small by simp
  then have "mc < n * n" using b(5) by (simp add: js_times_exact)
  then have c: "width b = height b" "mineCount b < width b * height b"
    "width b * height b \<le> 2 ^ 32 - 1"
    using b(2-4) small by simp_all
  from initField_first [OF b(1) _ c] a obtain s where
    "slots (fst (initField rand b x y)) (x, y) = Some s" "\<not> hasMine s" by blast
  moreover have "sameMines (slots (fst (initField rand b x y))) (slots (fst (click rand b x y)))"
    using click_after_init [of rand b x y] a by simp
  ultimately show "\<exists>s. slots (fst (click rand b x y)) (x, y) = Some s \<and> \<not> hasMine s"
    using sameMines_Some by fastforce
next
  assume a: "new_MineBoard n n (Count mc) = Inr b \<and> isVaildPosition b x y"
    and large: "2 ^ 32 - 1 < n * n"
  from a have b: "\<not> fieldInited b" "width b = n" "height b = n" "slots b = Map.empty"
    by (auto simp: new_MineBoard_def split: if_splits)
  have "initField rand b x y = (b\<lparr>fieldInited := True\<rparr>, Some RangeError)"
    using b(1) by (rule initField_too_large) (use large in \<open>simp add: b(2,3)\<close>)
  then show "click rand b x y = (b\<lparr>fieldInited := True\<rparr>, Inl RangeError)"
    using a by (simp add: click_def)
  then show "slots (fst (click rand b x y)) (x, y) = None" using b(4) by simp
next
  assume a: "new_MineBoard w' h' (Layout str) = Inr c \<and> slots c p = Some s0"
  then show "fieldInited c" using new_MineBoard_Layout_inited by blast
next
  assume a: "new_MineBoard w' h' (Layout str) = Inr c \<and> slots c p = Some s0"
  then have "fieldInited c" using new_MineBoard_Layout_inited by blast
  from click_inited_sameMines [OF this, of rand x y] a
  show "\<exists>s. slots (fst (click rand c x y)) p = Some s \<and> hasMine s = hasMine s0"
    using sameMines_Some by blast
qed

theorem first_click_is_safe_witness:
  "isVaildPosition (new_MineBoard_r 5 5 (\<lambda>x y. True)) 2 3
   \<and> (\<exists>s. slots (fst (click_r (new_MineBoard_r 5 5 (\<lambda>x y. True)) 2 3)) (2, 3) = Some s
          \<and> \<not> hasMine s)
   \<and> (\<exists>b. new_MineBoard 5 5 (Count 24) = Inr b \<and> isVaildPosition b 2 2
          \<and> (\<exists>s. slots (fst (click (\<lambda>i. 0) b 2 2)) (2, 2) = Some s \<and> \<not> hasMine s))
   \<and> (\<exists>b. new_MineBoard 65536 65536 (Count 0) = Inr b \<and> isVaildPosition b 0 0
          \<and> click (\<lambda>i. 0) b 0 0 = (b\<lparr>fieldInited := True\<rparr>, Inl RangeError)
          \<and> slots (fst (click (\<lambda>i. 0) b 0 0)) (0, 0) = None)
   \<and> (\<exists>c s0. new_MineBoard 5 5 (Layout ''x _'') = Inr c \<and> slots c (0, 0) = Some s0
          \<and> hasMine s0 \<and> fieldInited c
          \<and> (\<exists>s. slots (fst (click (\<lambda>i. 0) c 0 0)) (0, 0) = Some s \<and> hasMine s))"
proof -
  have v1: "isVaildPosition (new_MineBoard_r 5 5 (\<lambda>x y. True)) 2 3"
    by (simp add: new_MineBoard_r_def isVaildPosition_def)
  have "\<exists>b. new_MineBoard 5 5 (Count 24) = Inr b \<and> isVaildPosition b 2 2"
    by (simp add: new_MineBoard_def isVaildPosition_def js_times_exact)
  then obtain b where b: "new_MineBoard 5 5 (Count 24) = Inr b" "isVaildPosition b 2 2"
    by blast
  have small: "(5 :: int) * 5 \<le> 2 ^ 32 - 1" by simp
  have "\<exists>b. new_MineBoard 65536 65536 (Count 0) = Inr b \<and> isVaildPosition b 0 0"
    by (simp add: new_MineBoard_def isVaildPosition_def js_times_exact)
  then obtain b4 where b4: "new_MineBoard 65536 65536 (Count 0) = Inr b4"
    "isVaildPosition b4 0 0"
    by blast
  have large: "2 ^ 32 - 1 < (65536 :: int) * 65536" by simp
  have "\<exists>c s0. new_MineBoard 5 5 (Layout ''x _'') = Inr c \<and> slots c (0, 0) = Some s0 \<and> hasMine s0"
    by (simp add: eval_defs)
  then obtain c s0 where c: "new_MineBoard 5 5 (Layout ''x _'') = Inr c"
    "slots c (0, 0) = Some s0" "hasMine s0"
    by blast
  note inst = first_click_is_safe
    [where w = 5 and h = 5 and r = "\<lambda>x y. True" and x = 2 and y = 3
       and n = 5 and mc = 24 and b = b and rand = "\<lambda>i. 0"
       and w' = 5 and h' = 5 and str = "''x _''" and c = c and p = "(0, 0)" and ?s0.0 = s0]
  note inst2 = first_click_is_safe
    [where w = 5 and h = 5 and r = "\<lambda>x y. True" and x = 2 and y = 2
       and n = 5 and mc = 24 and b = b and rand = "\<lambda>i. 0"
       and w' = 5 and h' = 5 and str = "''x _''" and c = c and p = "(0, 0)" and ?s0.0 = s0]
  note inst3 = first_click_is_safe
    [where w = 5 and h = 5 and r = "\<lambda>x y. True" and x = 0 and y = 0
       and n = 5 and mc = 24 and b = b and rand = "\<lambda>i. 0"
       and w' = 5 and h' = 5 and str = "''x _''" and c = c and p = "(0, 0)" and ?s0.0 = s0]
  note inst4 = first_click_is_safe
    [where w = 5 and h = 5 and r = "\<lambda>x y. True" and x = 0 and y = 0
       and n = 65536 and mc = 0 and b = b4 and rand = "\<lambda>i. 0"
       and w' = 5 and h' = 5 and str = "''x _''" and c = c and p = "(0, 0)" and ?s0.0 = s0]
  from inst v1 have 1: "\<exists>s. slots (fst (click_r (new_MineBoard_r 5 5 (\<lambda>x y. True)) 2 3)) (2, 3) = Some s
          \<and> \<not> hasMine s"
    by blast
  from inst2 b small
  have 2: "\<exists>s. slots (fst (click (\<lambda>i. 0) b 2 2)) (2, 2) = Some s \<and> \<not> hasMine s"
    by blast
  from inst4 b4 large
  have 4: "click (\<lambda>i. 0) b4 0 0 = (b4\<lparr>fieldInited := True\<rparr>, Inl RangeError)
           \<and> slots (fst (click (\<lambda>i. 0) b4 0 0)) (0, 0) = None"
    by blast
  from inst3 c have 3: "fieldInited c"
    "\<exists>s. slots (fst (click (\<lambda>i. 0) c 0 0)) (0, 0) = Some s \<and> hasMine s"
    by auto
  from b 2 have B: "\<exists>b. new_MineBoard 5 5 (Count 24) = Inr b \<and> isVaildPosition b 2 2
          \<and> (\<exists>s. slots (fst (click (\<lambda>i. 0) b 2 2)) (2, 2) = Some s \<and> \<not> hasMine s)"
    by blast
  from c 3 have C: "\<exists>c s0. new_MineBoard 5 5 (Layout ''x _'') = Inr c \<and> slots c (0, 0) = Some s0
          \<and> hasMine s0 \<and> fieldInited c
          \<and> (\<exists>s. slots (fst (click (\<lambda>i. 0) c 0 0)) (0, 0) = Some s \<and> hasMine s)"
    by blast
  from b4 4 have D: "\<exists>b. new_MineBoard 65536 65536 (Count 0) = Inr b \<and> isVaildPosition b 0 0
          \<and> click (\<lambda>i. 0) b 0 0 = (b\<lparr>fieldInited := True\<rparr>, Inl RangeError)
          \<and> slots (fst (click (\<lambda>i. 0) b 0 0)) (0, 0) = None"
    by blast
  from v1 1 B D C show ?thesis by (intro conjI)
qed

section \<open>The board of a layout\<close>

lemma split_nl_nonempty: "split_nl s \<noteq> []"
  by (induction s) (auto split: list.splits)

lemma length_split_nl: "length (split_nl s) = Suc (count_list s (CHR 0x0A))"
proof (induction s)
  case Nil
  then show ?case by simp
next
  case (Cons c cs)
  then show ?case using split_nl_nonempty [of cs] by (cases "split_nl cs") auto
qed

lemma split_ws_nonempty: "split_ws s \<noteq> []"
  by (induction s rule: split_ws.induct) (auto split: list.splits)

lemma split_ws_runs:
  "split_ws s = takeWhile (\<lambda>c. \<not> isSpace c) s
     # (case dropWhile (\<lambda>c. \<not> isSpace c) s of
          [] \<Rightarrow> []
        | c # rest \<Rightarrow> split_ws (dropWhile isSpace rest))"
proof (induction s)
  case Nil
  then show ?case by simp
next
  case (Cons c cs)
  then show ?case by (cases "isSpace c") simp_all
qed

lemma tokens_Nil: "tokens [] = []"
  by (simp add: tokens.simps)

lemma tokens_nonspace:
  assumes "s \<noteq> []" "\<not> isSpace (hd s)"
  shows "tokens s = takeWhile (\<lambda>c. \<not> isSpace c) s # tokens (dropWhile (\<lambda>c. \<not> isSpace c) s)"
proof -
  obtain c cs where s: "s = c # cs" using assms(1) by (cases s) auto
  with assms(2) have "dropWhile isSpace s = c # cs" by simp
  then have "tokens s = takeWhile (\<lambda>c. \<not> isSpace c) (c # cs) # tokens (dropWhile (\<lambda>c. \<not> isSpace c) cs)"
    by (simp add: tokens.simps [of s])
  with s assms(2) show ?thesis by simp
qed

lemma tokens_dropWhile: "tokens (dropWhile isSpace s) = tokens s"
  by (simp add: tokens.simps [of s] tokens.simps [of "dropWhile isSpace s"])

lemma split_ws_tokens:
  "s \<noteq> [] \<Longrightarrow> \<not> isSpace (hd s) \<Longrightarrow> \<not> isSpace (last s) \<Longrightarrow> split_ws s = tokens s"
proof (induction s rule: length_induct)
  case (1 s)
  let ?d = "dropWhile (\<lambda>c. \<not> isSpace c) s"
  have tk: "tokens s = takeWhile (\<lambda>c. \<not> isSpace c) s # tokens ?d"
    using "1.prems"(1,2) by (rule tokens_nonspace)
  show ?case
  proof (cases ?d)
    case Nil
    have "split_ws s = [takeWhile (\<lambda>c. \<not> isSpace c) s]"
      by (subst split_ws_runs) (simp only: Nil list.case)
    moreover have "tokens s = [takeWhile (\<lambda>c. \<not> isSpace c) s]"
      by (simp only: tk Nil tokens_Nil)
    ultimately show ?thesis by simp
  next
    case (Cons sp rest)
    then have sp: "isSpace sp" using hd_dropWhile [of "\<lambda>c. \<not> isSpace c" s] by force
    let ?s' = "dropWhile isSpace rest"
    have s_eq: "s = takeWhile (\<lambda>c. \<not> isSpace c) s @ sp # rest"
      using Cons takeWhile_dropWhile_id [of "\<lambda>c. \<not> isSpace c" s] by simp
    have ne: "?s' \<noteq> []"
    proof
      assume e: "?s' = []"
      then have "\<forall>c \<in> set rest. isSpace c" by (simp add: dropWhile_eq_Nil_conv)
      with sp have "\<forall>c \<in> set (sp # rest). isSpace c" by simp
      moreover have "last s = last (sp # rest)" using s_eq by (metis last_appendR list.distinct(1))
      ultimately have "isSpace (last s)" by (metis last_in_set list.distinct(1))
      with "1.prems"(3) show False by simp
    qed
    have hd': "\<not> isSpace (hd ?s')" using ne hd_dropWhile by blast
    have suffix: "\<exists>pre. s = pre @ ?s' \<and> pre \<noteq> []"
    proof -
      have "rest = takeWhile isSpace rest @ ?s'" by simp
      then have "s = (takeWhile (\<lambda>c. \<not> isSpace c) s @ sp # takeWhile isSpace rest) @ ?s'"
        using s_eq by (metis append.assoc append_Cons)
      then show ?thesis by blast
    qed
    then obtain pre where pre: "s = pre @ ?s'" "pre \<noteq> []" by blast
    then have last': "last ?s' = last s" using ne by (metis last_appendR)
    have "length ?s' < length s" using pre by (metis length_append length_greater_0_conv less_add_same_cancel2)
    with "1.IH" ne hd' last' "1.prems"(3) have "split_ws ?s' = tokens ?s'" by simp
    moreover have "tokens ?d = tokens ?s'"
      using Cons sp tokens_dropWhile [of "sp # rest"] by simp
    moreover have "split_ws s = takeWhile (\<lambda>c. \<not> isSpace c) s # split_ws ?s'"
      by (subst split_ws_runs) (simp only: Cons list.case)
    ultimately show ?thesis by (simp only: tk)
  qed
qed

lemma last_dropWhile_ne: "dropWhile P xs \<noteq> [] \<Longrightarrow> last (dropWhile P xs) = last xs"
  by (induction xs) (auto split: if_splits)

lemma trim_blank: "\<forall>c \<in> set s. isSpace c \<Longrightarrow> trim s = []"
proof -
  assume "\<forall>c \<in> set s. isSpace c"
  then have "dropWhile isSpace s = []" by (simp add: dropWhile_eq_Nil_conv)
  then show ?thesis unfolding trim_def by (simp only: rev.simps dropWhile.simps)
qed

lemma trim_ends:
  assumes "trim s \<noteq> []"
  shows "\<not> isSpace (hd (trim s)) \<and> \<not> isSpace (last (trim s))"
proof -
  let ?t = "dropWhile isSpace s"
  let ?u = "dropWhile isSpace (rev ?t)"
  have u: "?u \<noteq> []" using assms by (simp add: trim_def)
  then have t: "?t \<noteq> []" by (cases "?t = []") simp_all
  have "\<not> isSpace (hd ?u)" using u by (rule hd_dropWhile)
  then have l: "\<not> isSpace (last (trim s))" using u by (simp add: trim_def last_rev)
  have "last ?u = last (rev ?t)" using u by (rule last_dropWhile_ne)
  also have "\<dots> = hd ?t" using t by (simp add: last_rev)
  finally have "hd (trim s) = hd ?t" using u by (simp add: trim_def hd_rev)
  moreover have "\<not> isSpace (hd ?t)" using t by (rule hd_dropWhile)
  ultimately show ?thesis using l by simp
qed

lemma trim_nonblank:
  assumes "\<exists>c \<in> set s. \<not> isSpace c"
  shows "trim s \<noteq> []"
proof -
  let ?t = "dropWhile isSpace s"
  from assms have "?t \<noteq> []" by (simp add: dropWhile_eq_Nil_conv)
  then have "\<not> isSpace (hd ?t)" by (rule hd_dropWhile)
  moreover have "hd ?t \<in> set (rev ?t)" using \<open>?t \<noteq> []\<close> by simp
  ultimately have "dropWhile isSpace (rev ?t) \<noteq> []"
    by (auto simp: dropWhile_eq_Nil_conv)
  then show ?thesis by (simp add: trim_def)
qed

text \<open>The pieces of a trimmed row are its tokens, but for a blank row, which has one empty piece.\<close>

lemma split_ws_trim:
  "split_ws (trim s) = (if \<forall>c \<in> set s. isSpace c then [[]] else tokens (trim s))"
proof (cases "\<forall>c \<in> set s. isSpace c")
  case True
  then show ?thesis by (simp add: trim_blank)
next
  case False
  then have ne: "trim s \<noteq> []" by (intro trim_nonblank) simp
  from trim_ends [OF ne] have "split_ws (trim s) = tokens (trim s)"
    using ne by (intro split_ws_tokens) simp_all
  with False show ?thesis by (simp only: if_False)
qed

lemma layout_loop_count:
  "snd (layout_loop rows sl mc ps)
   = mc + int (length (filter (\<lambda>(x, y). layout_hasMine rows x y) ps))"
proof (induction ps arbitrary: sl mc)
  case Nil
  then show ?case by simp
next
  case (Cons q ps)
  obtain x y where q: "q = (x, y)" by (cases q)
  show ?case unfolding q by (simp add: Let_def Cons.IH)
qed

lemma layout_loop_dom:
  "dom (fst (layout_loop rows sl mc ps)) = dom sl \<union> (\<lambda>(x, y). (int x, int y)) ` set ps"
proof (induction ps arbitrary: sl mc)
  case Nil
  then show ?case by simp
next
  case (Cons q ps)
  obtain x y where q: "q = (x, y)" by (cases q)
  let ?sl1 = "sl((int x, int y) \<mapsto> new_MineSlot (layout_hasMine rows x y))"
  let ?mc1 = "if layout_hasMine rows x y then mc + 1 else mc"
  have "layout_loop rows sl mc (q # ps) = layout_loop rows ?sl1 ?mc1 ps"
    unfolding q by (simp only: layout_loop.simps Let_def)
  then have "dom (fst (layout_loop rows sl mc (q # ps)))
             = dom ?sl1 \<union> (\<lambda>(x, y). (int x, int y)) ` set ps"
    by (simp only: Cons.IH)
  also have "dom ?sl1 = insert (int x, int y) (dom sl)" by (simp only: dom_fun_upd option.distinct if_False)
  finally show ?case unfolding q by simp
qed

lemma count_in_row:
  "length (filter (\<lambda>x. x < length r \<and> r ! x = a) [0..<w]) = count_list (take w r) a"
proof (induction w)
  case 0
  then show ?case by simp
next
  case (Suc w)
  show ?case
  proof (cases "w < length r")
    case True
    then show ?thesis using Suc by (simp add: take_Suc_conv_app_nth)
  next
    case False
    then show ?thesis using Suc by simp
  qed
qed

lemma length_filter_concat:
  "length (filter P (concat xss)) = sum_list (map (\<lambda>xs. length (filter P xs)) xss)"
  by (induction xss) simp_all

lemma count_list_concat:
  "count_list (concat xss) a = sum_list (map (\<lambda>xs. count_list xs a) xss)"
  by (induction xss) simp_all

lemma layout_mines:
  "length (filter (\<lambda>(x, y). layout_hasMine rows x y) (layoutPositions w (length rows)))
   = sum_list (map (\<lambda>row. count_list (take w row) ''x'') rows)"
proof -
  have "length (filter (\<lambda>(x, y). layout_hasMine rows x y) (layoutPositions w (length rows)))
        = sum_list (map (\<lambda>y. length (filter (\<lambda>x. layout_hasMine rows x y) [0..<w]))
                      [0..<length rows])"
    by (simp add: layoutPositions_def length_filter_concat filter_map comp_def)
  also have "\<dots> = sum_list (map (\<lambda>y. count_list (take w (rows ! y)) ''x'') [0..<length rows])"
  proof (rule arg_cong [of _ _ sum_list], rule map_cong [OF refl])
    fix y assume "y \<in> set [0..<length rows]"
    then have "y < length rows" by simp
    then have "(\<lambda>x. layout_hasMine rows x y) = (\<lambda>x. x < length (rows ! y) \<and> rows ! y ! x = ''x'')"
      by (simp add: layout_hasMine_def)
    then show "length (filter (\<lambda>x. layout_hasMine rows x y) [0..<w]) = count_list (take w (rows ! y)) ''x''"
      by (simp only: count_in_row)
  qed
  also have "\<dots> = sum_list (map (\<lambda>row. count_list (take w row) ''x'') (map (\<lambda>y. rows ! y) [0..<length rows]))"
    by (simp add: comp_def)
  also have "map (\<lambda>y. rows ! y) [0..<length rows] = rows" by (rule map_nth)
  finally show ?thesis .
qed

lemma initNearbyMine_loop_ok:
  "\<forall>p \<in> set ps. sl p \<noteq> None \<Longrightarrow> snd (initNearbyMine_loop sl ps) = None"
proof (induction ps arbitrary: sl)
  case Nil
  then show ?case by simp
next
  case (Cons q ps)
  obtain i j where q: "q = (i, j)" by (cases q)
  from Cons.prems q obtain s where s: "sl (i, j) = Some s" by auto
  let ?sl1 = "sl((i, j) \<mapsto> s\<lparr>nearbyMine := nearByMine sl i j\<rparr>)"
  have "\<forall>p \<in> set ps. ?sl1 p \<noteq> None" using Cons.prems by simp
  then have "snd (initNearbyMine_loop ?sl1 ps) = None" by (rule Cons.IH)
  then show ?case using q s by simp
qed

lemma sameMines_dom: "sameMines sl sl' \<Longrightarrow> dom sl' = dom sl"
proof (rule set_eqI)
  fix p assume a: "sameMines sl sl'"
  show "p \<in> dom sl' \<longleftrightarrow> p \<in> dom sl"
  proof (cases "sl p")
    case None
    with sameMines_None [OF a None] show ?thesis by (simp add: dom_def)
  next
    case (Some s)
    with sameMines_Some [OF a Some] show ?thesis by (auto simp: dom_def)
  qed
qed

lemma set_layoutPositions: "set (layoutPositions w h) = {0..<w} \<times> {0..<h}"
  by (auto simp: layoutPositions_def)

lemma layoutPositions_grid:
  "(\<lambda>(x, y). (int x, int y)) ` set (layoutPositions w h) = {0..<int w} \<times> {0..<int h}"
proof (rule set_eqI)
  fix p :: "int \<times> int"
  obtain a b where p: "p = (a, b)" by (cases p)
  show "p \<in> (\<lambda>(x, y). (int x, int y)) ` set (layoutPositions w h) \<longleftrightarrow> p \<in> {0..<int w} \<times> {0..<int h}"
  proof
    assume "p \<in> (\<lambda>(x, y). (int x, int y)) ` set (layoutPositions w h)"
    then show "p \<in> {0..<int w} \<times> {0..<int h}" by (auto simp: set_layoutPositions)
  next
    assume "p \<in> {0..<int w} \<times> {0..<int h}"
    then have ab: "0 \<le> a" "a < int w" "0 \<le> b" "b < int h" using p by auto
    then have "nat a < w" "nat b < h" by linarith+
    then have "(nat a, nat b) \<in> set (layoutPositions w h)" by (simp add: set_layoutPositions)
    moreover have "p = (\<lambda>(x, y). (int x, int y)) (nat a, nat b)" using p ab by simp
    ultimately show "p \<in> (\<lambda>(x, y). (int x, int y)) ` set (layoutPositions w h)" by (rule rev_image_eqI)
  qed
qed

lemma layoutRows_nonempty: "layoutRows str \<noteq> []"
  by (simp add: layoutRows_def split_nl_nonempty)

lemma hd_layoutRows: "hd (layoutRows str) = split_ws (trim (hd (split_nl (trim str))))"
  using split_nl_nonempty [of "trim str"] by (simp add: layoutRows_def hd_map)

lemma tokens_spaces: "\<forall>c \<in> set ws. isSpace c \<Longrightarrow> tokens ws = []"
proof -
  assume "\<forall>c \<in> set ws. isSpace c"
  then have "dropWhile isSpace ws = []" by (simp add: dropWhile_eq_Nil_conv)
  then show ?thesis by (simp only: tokens.simps [of ws] list.case)
qed

lemma takeWhile_nonspace_spaces:
  "\<forall>c \<in> set ws. isSpace c \<Longrightarrow> takeWhile (\<lambda>c. \<not> isSpace c) ws = []"
  by (cases ws) simp_all

lemma dropWhile_nonspace_spaces:
  "\<forall>c \<in> set ws. isSpace c \<Longrightarrow> dropWhile (\<lambda>c. \<not> isSpace c) ws = ws"
  by (cases ws) simp_all

lemma tokens_append_spaces:
  "\<forall>c \<in> set ws. isSpace c \<Longrightarrow> tokens (s @ ws) = tokens s"
proof (induction s rule: tokens.induct)
  case (1 s)
  let ?P = "\<lambda>c. \<not> isSpace c"
  note ws = "1.prems"
  show ?case
  proof (cases "dropWhile isSpace s")
    case Nil
    then have "\<forall>c \<in> set s. isSpace c" by (simp add: dropWhile_eq_Nil_conv)
    with ws have "\<forall>c \<in> set (s @ ws). isSpace c" by auto
    then have "tokens (s @ ws) = []" by (rule tokens_spaces)
    moreover have "tokens s = []" by (simp only: tokens.simps [of s] Nil list.case)
    ultimately show ?thesis by simp
  next
    case (Cons c cs)
    then have "dropWhile isSpace s \<noteq> []" by simp
    then have ex: "\<exists>x \<in> set s. \<not> isSpace x" by (simp add: dropWhile_eq_Nil_conv)
    then obtain x where "x \<in> set s" "\<not> isSpace x" by blast
    then have "dropWhile isSpace (s @ ws) = dropWhile isSpace s @ ws" by (rule dropWhile_append1)
    then have d: "dropWhile isSpace (s @ ws) = c # (cs @ ws)" using Cons by simp
    have nc: "\<not> isSpace c" using hd_dropWhile [of isSpace s] Cons by simp
    have IH: "tokens (dropWhile ?P cs @ ws) = tokens (dropWhile ?P cs)"
      using Cons ws by (rule "1.IH")
    have "takeWhile ?P (cs @ ws) = takeWhile ?P cs
          \<and> tokens (dropWhile ?P (cs @ ws)) = tokens (dropWhile ?P cs)"
    proof (cases "\<forall>x \<in> set cs. ?P x")
      case True
      then have "takeWhile ?P (cs @ ws) = cs @ takeWhile ?P ws" by (intro takeWhile_append2) simp
      then have a: "takeWhile ?P (cs @ ws) = cs"
        using ws by (simp add: takeWhile_nonspace_spaces)
      have b: "takeWhile ?P cs = cs" using True by simp
      have "dropWhile ?P (cs @ ws) = dropWhile ?P ws" using True by (intro dropWhile_append2) simp
      then have "dropWhile ?P (cs @ ws) = ws" using ws by (simp add: dropWhile_nonspace_spaces)
      then have c: "tokens (dropWhile ?P (cs @ ws)) = []" using ws by (simp add: tokens_spaces)
      have "dropWhile ?P cs = []" using True by simp
      then have d: "tokens (dropWhile ?P cs) = []" by (simp only: tokens_Nil)
      show ?thesis by (simp only: a b c d)
    next
      case False
      then obtain y where y: "y \<in> set cs" "\<not> ?P y" by blast
      then have "takeWhile ?P (cs @ ws) = takeWhile ?P cs" by (rule takeWhile_append1)
      moreover have "dropWhile ?P (cs @ ws) = dropWhile ?P cs @ ws" using y by (rule dropWhile_append1)
      ultimately show ?thesis using IH by simp
    qed
    then have "takeWhile ?P (c # (cs @ ws)) # tokens (dropWhile ?P (cs @ ws))
               = takeWhile ?P (c # cs) # tokens (dropWhile ?P cs)"
      using nc by simp
    moreover have "tokens (s @ ws) = takeWhile ?P (c # (cs @ ws)) # tokens (dropWhile ?P (cs @ ws))"
      by (simp only: tokens.simps [of "s @ ws"] d list.case)
    moreover have "tokens s = takeWhile ?P (c # cs) # tokens (dropWhile ?P cs)"
      by (simp only: tokens.simps [of s] Cons list.case)
    ultimately show ?thesis by simp
  qed
qed

lemma tokens_trim: "tokens (trim s) = tokens s"
proof -
  let ?t = "dropWhile isSpace s"
  have "rev ?t = takeWhile isSpace (rev ?t) @ dropWhile isSpace (rev ?t)" by simp
  then have "rev (rev ?t) = rev (takeWhile isSpace (rev ?t) @ dropWhile isSpace (rev ?t))"
    by (rule arg_cong)
  then have "?t = trim s @ rev (takeWhile isSpace (rev ?t))"
    by (simp only: rev_rev_ident rev_append trim_def)
  moreover have "\<forall>c \<in> set (rev (takeWhile isSpace (rev ?t))). isSpace c"
    by (auto dest: set_takeWhileD)
  then have "tokens (trim s @ rev (takeWhile isSpace (rev ?t))) = tokens (trim s)"
    by (rule tokens_append_spaces)
  ultimately have "tokens ?t = tokens (trim s)" by simp
  then show ?thesis by (simp add: tokens_dropWhile)
qed

section \<open>Finished boards and the test for a win\<close>

lemma click_body_finished:
  assumes "slots b (x, y) = Some s"
    and "state b = Dead \<or> (state b = Win \<and> \<not> hasMine s)"
  shows "click_body won b x y = (b, Inr \<lparr>res_state = state b, reveals = []\<rparr>)"
proof -
  have "(if hasMine s then b\<lparr>state := Dead\<rparr> else b) = b"
    using assms(2) by auto
  then show ?thesis
    using assms by (auto simp: click_body_def Let_def)
qed

lemma click_finished:
  assumes "fieldInited b" "isVaildPosition b x y" "slots b (x, y) = Some s"
    and "state b = Dead \<or> (state b = Win \<and> \<not> hasMine s)"
  shows "click rand b x y = (b, Inr \<lparr>res_state = state b, reveals = []\<rparr>)"
  using assms(1,2) click_body_finished [OF assms(3,4)]
  by (simp add: click_unfold initField_def)

lemma click_r_finished:
  assumes "fieldInited b" "isVaildPosition b x y" "slots b (x, y) = Some s"
    and "state b = Dead \<or> (state b = Win \<and> \<not> hasMine s)"
  shows "click_r b x y = (b, Inr \<lparr>res_state = state b, reveals = []\<rparr>)"
  using assms(1,2) click_body_finished [OF assms(3,4)]
  by (simp add: click_r_unfold initField_r_def)

lemma click_map_fields:
  "click_map b ps = (b', r)
   \<Longrightarrow> state b' = state b \<and> width b' = width b \<and> height b' = height b
       \<and> fieldInited b' = fieldInited b \<and> MineBoard.more b' = MineBoard.more b"
proof (induction ps arbitrary: b b' r)
  case Nil
  then show ?case by simp
next
  case (Cons p ps)
  show ?case
  proof (cases "slots b p")
    case None
    with Cons.prems show ?thesis by simp
  next
    case (Some slot)
    let ?b1 = "b\<lparr>slots := (slots b)(p \<mapsto> slot\<lparr>reveal := True\<rparr>), revealCount := revealCount b + 1\<rparr>"
    obtain b2 r2 where r: "click_map ?b1 ps = (b2, r2)" by (cases "click_map ?b1 ps")
    with Cons.prems Some have "b' = b2" by (cases r2) auto
    with Cons.IH [OF r] show ?thesis by simp
  qed
qed

text \<open>
  The test that ends a reveal: after a click on a playing board that returns and did not
  hit a mine, the state is win if \<^verbatim>\<open>revealCount\<close> is \<open>width * height - mineCount\<close>, and
  playing otherwise.
\<close>

lemma click_win_iff:
  assumes "state b = Playing" "click rand b x y = (b', Inr r)" "state b' \<noteq> Dead"
  shows "res_state r = state b'
     \<and> (state b' = Win \<longleftrightarrow> int (revealCount b') = width b' * height b' - mineCount b')
     \<and> (state b' \<noteq> Win \<longrightarrow> state b' = Playing)"
proof -
  let ?won = "\<lambda>b3 :: CountBoard. int (revealCount b3) = width b3 * height b3 - mineCount b3"
  have v: "isVaildPosition b x y" using assms(2) by (cases "isVaildPosition b x y") (auto simp: click_def)
  obtain b1 err where i: "initField rand b x y = (b1, err)" by (cases "initField rand b x y")
  from assms(2) v i have err: "err = None" by (cases err) (auto simp: click_unfold)
  with assms(2) v i have cb: "click_body ?won b1 x y = (b', Inr r)" by (simp add: click_unfold)
  have st1: "state b1 = Playing" using initField_dims [OF i] assms(1) by simp
  from cb obtain s where s: "slots b1 (x, y) = Some s"
    by (cases "slots b1 (x, y)") (auto simp: click_body_def)
  have nm: "\<not> hasMine s"
  proof
    assume "hasMine s"
    with cb s have "state b' = Dead" by (auto simp: click_body_def Let_def)
    with assms(3) show False by simp
  qed
  with cb s st1 obtain ps b3 evs where
    cm: "click_map b1 ps = (b3, Inr evs)"
    and b': "b' = (if ?won b3 then b3\<lparr>state := Win\<rparr> else b3)"
    and r: "r = \<lparr>res_state = state b', reveals = evs\<rparr>"
    by (auto simp: click_body_def Let_def split: sum.splits prod.splits)
  have "state b3 = Playing" using click_map_fields [OF cm] st1 by simp
  with b' r show ?thesis by (cases "?won b3") simp_all
qed

section \<open>The stored counts and the mines of a square board\<close>

lemma foldl_count:
  "foldl (\<lambda>count d. if P d then count + 1 else count) (n :: nat) ds = n + length (filter P ds)"
  by (induction ds arbitrary: n) simp_all

lemma nearByMine_filter:
  "nearByMine sl i j = length (filter (\<lambda>(x, y). mineAt sl (i + x, j + y)) deltaMap)"
proof -
  have "(\<lambda>count (x, y). case sl (i + x, j + y) of None \<Rightarrow> count
                            | Some s \<Rightarrow> if hasMine s then count + 1 else count)
        = (\<lambda>(count :: nat) d. if (\<lambda>(x, y). mineAt sl (i + x, j + y)) d then count + 1 else count)"
    by (intro ext) (simp add: mineAt_def split: prod.splits option.splits)
  then show ?thesis
    unfolding nearByMine_def by (simp only: foldl_count)
qed

lemma sameMines_mineAt: "sameMines sl sl' \<Longrightarrow> mineAt sl' p = mineAt sl p"
proof (cases "sl p")
  case None
  assume "sameMines sl sl'"
  from sameMines_None [OF this None] None show ?thesis by (simp add: mineAt_def)
next
  case (Some s)
  assume "sameMines sl sl'"
  from sameMines_Some [OF this Some] Some show ?thesis by (auto simp: mineAt_def)
qed

lemma nearByMine_sameMines: "sameMines sl sl' \<Longrightarrow> nearByMine sl' i j = nearByMine sl i j"
  by (simp add: nearByMine_filter sameMines_mineAt)

lemma nearByMine_inBounds:
  assumes "dom (slots b) \<subseteq> grid b"
  shows "nearByMine (slots b) i j = inBoundsMines b (i, j)"
proof -
  have "\<And>q. mineAt (slots b) q \<Longrightarrow> q \<in> grid b"
    using assms by (auto simp: mineAt_def split: option.splits)
  then have "(\<lambda>q. q \<in> grid b \<and> mineAt (slots b) q) = mineAt (slots b)" by auto
  then show ?thesis
    by (simp add: nearByMine_filter inBoundsMines_def neighbours_def filter_map comp_def
        case_prod_unfold add.commute)
qed

lemma initNearbyMine_loop_other:
  "p \<notin> set ps \<Longrightarrow> fst (initNearbyMine_loop sl ps) p = sl p"
proof (induction ps arbitrary: sl)
  case Nil
  then show ?case by simp
next
  case (Cons q ps)
  obtain i j where q: "q = (i, j)" by (cases q)
  show ?case
  proof (cases "sl (i, j)")
    case None
    then show ?thesis using q by simp
  next
    case (Some s)
    let ?sl1 = "sl((i, j) \<mapsto> s\<lparr>nearbyMine := nearByMine sl i j\<rparr>)"
    have "fst (initNearbyMine_loop ?sl1 ps) p = ?sl1 p" using Cons.prems by (intro Cons.IH) simp
    moreover have "?sl1 p = sl p" using Cons.prems q by simp
    moreover have "initNearbyMine_loop sl (q # ps) = initNearbyMine_loop ?sl1 ps"
      using q Some by simp
    ultimately show ?thesis by (simp only:)
  qed
qed

lemma initNearbyMine_loop_counts:
  "initNearbyMine_loop sl ps = (sl', None) \<Longrightarrow> (i, j) \<in> set ps
   \<Longrightarrow> \<exists>s. sl' (i, j) = Some s \<and> nearbyMine s = nearByMine sl i j"
proof (induction ps arbitrary: sl)
  case Nil
  then show ?case by simp
next
  case (Cons q ps)
  obtain a b where q: "q = (a, b)" by (cases q)
  from Cons.prems(1) q obtain s0 where s0: "sl (a, b) = Some s0"
    by (cases "sl (a, b)") auto
  let ?sl1 = "sl((a, b) \<mapsto> s0\<lparr>nearbyMine := nearByMine sl a b\<rparr>)"
  have l: "initNearbyMine_loop ?sl1 ps = (sl', None)" using Cons.prems(1) q s0 by simp
  have sm: "sameMines sl ?sl1" using s0 by (intro sameMines_upd) simp_all
  show ?case
  proof (cases "(i, j) \<in> set ps")
    case True
    from Cons.IH [OF l True] obtain s where "sl' (i, j) = Some s" "nearbyMine s = nearByMine ?sl1 i j"
      by blast
    moreover have "nearByMine ?sl1 i j = nearByMine sl i j" using sm by (rule nearByMine_sameMines)
    ultimately show ?thesis by simp
  next
    case False
    then have ij: "(i, j) = (a, b)" using Cons.prems(2) q by simp
    have "fst (initNearbyMine_loop ?sl1 ps) (i, j) = ?sl1 (i, j)"
      using False by (rule initNearbyMine_loop_other)
    with l have "sl' (i, j) = ?sl1 (i, j)" by simp
    with ij show ?thesis by simp
  qed
qed

lemma initNearbyMine_countsCorrect:
  assumes "initNearbyMine sl (width b) (height b) = (slots b, None)" "dom sl \<subseteq> grid b"
  shows "countsCorrect b"
  unfolding countsCorrect_def
proof
  fix p assume p: "p \<in> grid b"
  obtain i j where ij: "p = (i, j)" by (cases p)
  have l: "initNearbyMine_loop sl (gridPositions (width b) (height b)) = (slots b, None)"
    using assms(1) by (simp add: initNearbyMine_def)
  have "(i, j) \<in> set (gridPositions (width b) (height b))"
    using p ij by (simp add: set_gridPositions grid_def)
  from initNearbyMine_loop_counts [OF l this] obtain s where
    s: "slots b (i, j) = Some s" "nearbyMine s = nearByMine sl i j" by blast
  have sm: "sameMines sl (slots b)" using l by (rule initNearbyMine_loop_sameMines)
  then have "nearByMine (slots b) i j = nearByMine sl i j" by (rule nearByMine_sameMines)
  moreover have "dom (slots b) \<subseteq> grid b" using sameMines_dom [OF sm] assms(2) by simp
  then have "nearByMine (slots b) i j = inBoundsMines b (i, j)" by (rule nearByMine_inBounds)
  ultimately show "\<exists>s. slots b p = Some s \<and> nearbyMine s = inBoundsMines b p"
    using s ij by simp
qed

lemma countsCorrect_sameCells:
  assumes "countsCorrect b" "sameCells (slots b) (slots b')" "grid b' = grid b"
  shows "countsCorrect b'"
  unfolding countsCorrect_def
proof
  fix p assume "p \<in> grid b'"
  then have "p \<in> grid b" using assms(3) by simp
  with assms(1) obtain s where s: "slots b p = Some s" "nearbyMine s = inBoundsMines b p"
    unfolding countsCorrect_def by blast
  from sameCells_Some [OF assms(2) s(1)] obtain s' where
    s': "slots b' p = Some s'" "nearbyMine s' = nearbyMine s" by blast
  have "\<And>q. mineAt (slots b') q = mineAt (slots b) q"
    using assms(2) by (intro sameMines_mineAt sameCells_sameMines)
  then have "inBoundsMines b' p = inBoundsMines b p"
    using assms(3) by (simp add: inBoundsMines_def)
  with s s' show "\<exists>s. slots b' p = Some s \<and> nearbyMine s = inBoundsMines b' p" by simp
qed

lemma click_body_grid: "grid (fst (click_body won b x y)) = grid b"
proof -
  have "width (fst (click_body won b x y)) = width b \<and> height (fst (click_body won b x y)) = height b"
  proof (cases "slots b (x, y)")
    case None
    then show ?thesis by (simp add: click_body_def)
  next
    case (Some s)
    let ?b2 = "if hasMine s then b\<lparr>state := Dead\<rparr> else b"
    have d2: "width ?b2 = width b" "height ?b2 = height b" by simp_all
    show ?thesis
    proof (cases "state ?b2 \<noteq> Playing")
      case True
      with Some d2 show ?thesis by (auto simp: click_body_def Let_def)
    next
      case False
      show ?thesis
      proof (cases "touchingNoMine ?b2 x y")
        case (Inl e)
        with Some False d2 show ?thesis by (auto simp: click_body_def Let_def)
      next
        case (Inr ps)
        obtain b3 r3 where cm: "click_map ?b2 ps = (b3, r3)" by (cases "click_map ?b2 ps")
        from click_map_fields [OF cm] d2 have d3: "width b3 = width b" "height b3 = height b"
          by simp_all
        have "width (fst (click_body won b x y)) = width b3
              \<and> height (fst (click_body won b x y)) = height b3"
          using Some False Inr cm by (cases r3) (auto simp: click_body_def Let_def)
        with d3 show ?thesis by simp
      qed
    qed
  qed
  then show ?thesis by (simp add: grid_def)
qed

text \<open>Once right, the stored counts stay right: a click writes \<^verbatim>\<open>reveal\<close> only.\<close>

lemma click_countsCorrect:
  assumes "fieldInited b" "countsCorrect b"
  shows "countsCorrect (fst (click rand b x y))"
proof (cases "isVaildPosition b x y")
  case False
  with assms(2) show ?thesis by (simp add: click_def)
next
  case True
  have "initField rand b x y = (b, None)" using assms(1) by (simp add: initField_def)
  with True have "fst (click rand b x y) = fst (click_body (\<lambda>b3. int (revealCount b3) = width b3 * height b3 - mineCount b3) b x y)"
    by (simp add: click_unfold)
  then show ?thesis
    using countsCorrect_sameCells [OF assms(2) click_body_sameCells click_body_grid] by simp
qed

lemma click_r_countsCorrect:
  assumes "fieldInited b" "countsCorrect b"
  shows "countsCorrect (fst (click_r b x y))"
proof (cases "isVaildPosition b x y")
  case False
  with assms(2) show ?thesis by (simp add: click_r_def)
next
  case True
  have "initField_r b x y = (b, None)" using assms(1) by (simp add: initField_r_def)
  with True have "fst (click_r b x y) = fst (click_body (\<lambda>b3. revealCount b3 = totalSpaceCount b3) b x y)"
    by (simp add: click_r_unfold)
  then show ?thesis
    using countsCorrect_sameCells [OF assms(2) click_body_sameCells click_body_grid] by simp
qed

lemma initField_r_loop_dom:
  "dom (fst (initField_r_loop r c sl tsc ps)) = dom sl \<union> set ps"
proof (induction ps arbitrary: sl tsc)
  case Nil
  then show ?case by simp
next
  case (Cons q ps)
  obtain i j where q: "q = (i, j)" by (cases q)
  let ?hm = "if (i, j) = c then False else r i j"
  let ?sl1 = "sl((i, j) \<mapsto> new_MineSlot ?hm)"
  let ?t1 = "if \<not> ?hm then tsc + 1 else tsc"
  have "initField_r_loop r c sl tsc (q # ps) = initField_r_loop r c ?sl1 ?t1 ps"
    unfolding q by (simp only: initField_r_loop.simps Let_def)
  then have "dom (fst (initField_r_loop r c sl tsc (q # ps))) = dom ?sl1 \<union> set ps"
    by (simp only: Cons.IH)
  also have "dom ?sl1 = insert (i, j) (dom sl)"
    by (simp only: dom_fun_upd option.distinct if_False)
  finally show ?case unfolding q by simp
qed

text \<open>
  The first click on a board built with a predicate: \<^verbatim>\<open>initField\<close> does not throw, the
  slots are the grid's and the stored counts are right.
\<close>

lemma initField_r_fresh:
  assumes "\<not> fieldInited b" "slots b = Map.empty"
  obtains b1 where "initField_r b x y = (b1, None)" "fieldInited b1" "dom (slots b1) = grid b1"
    "countsCorrect b1" "grid b1 = grid b" "state b1 = state b"
proof -
  obtain sl tsc where l: "initField_r_loop (randomer b) (x, y) (slots b) (totalSpaceCount b)
                            (gridPositions (width b) (height b)) = (sl, tsc)"
    by (cases "initField_r_loop (randomer b) (x, y) (slots b) (totalSpaceCount b)
                 (gridPositions (width b) (height b))")
  obtain sl' err where n: "initNearbyMine sl (width b) (height b) = (sl', err)"
    by (cases "initNearbyMine sl (width b) (height b)")
  let ?b1 = "b\<lparr>fieldInited := True, slots := sl', totalSpaceCount := tsc\<rparr>"
  have dsl: "dom sl = grid b"
    using initField_r_loop_dom [of "randomer b" "(x, y)" "slots b" "totalSpaceCount b"
            "gridPositions (width b) (height b)"] l assms(2)
    by (simp add: set_gridPositions grid_def)
  then have "\<forall>p \<in> set (gridPositions (width b) (height b)). sl p \<noteq> None"
    unfolding set_gridPositions grid_def by (metis domIff)
  then have "snd (initNearbyMine_loop sl (gridPositions (width b) (height b))) = None"
    by (rule initNearbyMine_loop_ok)
  with n have err: "err = None" by (simp add: initNearbyMine_def)
  have i: "initField_r b x y = (?b1, None)"
    using assms(1) l n err by (simp add: initField_r_def)
  have g: "grid ?b1 = grid b" by (simp add: grid_def)
  have "sameMines sl sl'" using n unfolding initNearbyMine_def by (rule initNearbyMine_loop_sameMines)
  then have d: "dom (slots ?b1) = grid ?b1" using dsl g by (simp add: sameMines_dom)
  have "initNearbyMine sl (width ?b1) (height ?b1) = (slots ?b1, None)" using n err by simp
  moreover have "dom sl \<subseteq> grid ?b1" using dsl g by simp
  ultimately have c: "countsCorrect ?b1" by (rule initNearbyMine_countsCorrect)
  show thesis using that [OF i _ d c g] by simp
qed

lemma click_r_first_countsCorrect:
  assumes "isVaildPosition (new_MineBoard_r w h r) x y"
  shows "countsCorrect (fst (click_r (new_MineBoard_r w h r) x y))
     \<and> dom (slots (fst (click_r (new_MineBoard_r w h r) x y)))
         = grid (fst (click_r (new_MineBoard_r w h r) x y))"
proof -
  let ?b = "new_MineBoard_r w h r"
  let ?won = "\<lambda>b3 :: PredBoard. revealCount b3 = totalSpaceCount b3"
  have "\<not> fieldInited ?b" "slots ?b = Map.empty" by (simp_all add: new_MineBoard_r_def)
  then obtain b1 where b1: "initField_r ?b x y = (b1, None)" "dom (slots b1) = grid b1"
    "countsCorrect b1"
    by (rule initField_r_fresh)
  have f: "fst (click_r ?b x y) = fst (click_body ?won b1 x y)"
    using assms b1(1) by (simp add: click_r_unfold)
  have sc: "sameCells (slots b1) (slots (fst (click_body ?won b1 x y)))"
    by (rule click_body_sameCells)
  have g: "grid (fst (click_body ?won b1 x y)) = grid b1" by (rule click_body_grid)
  have "countsCorrect (fst (click_body ?won b1 x y))"
    using b1(3) sc g by (rule countsCorrect_sameCells)
  moreover have "dom (slots (fst (click_body ?won b1 x y))) = grid (fst (click_body ?won b1 x y))"
    using sameMines_dom [OF sameCells_sameMines [OF sc]] b1(2) g by simp
  ultimately show ?thesis using f by simp
qed

lemma shuffle_perm:
  "k < length xs \<or> k = 0 \<Longrightarrow> set (shuffle rand k xs) = set xs
     \<and> (distinct (shuffle rand k xs) \<longleftrightarrow> distinct xs)"
proof (induction k arbitrary: xs)
  case 0
  then show ?case by simp
next
  case (Suc k)
  let ?i = "Suc k"
  let ?j = "rand ?i mod (?i + 1)"
  let ?ys = "xs[?i := xs ! ?j, ?j := xs ! ?i]"
  from Suc.prems have i: "?i < length xs" by simp
  have "?j < ?i + 1" by (rule mod_less_divisor) simp
  then have j: "?j < length xs" using i by linarith
  have s: "set ?ys = set xs" using i j by (rule set_swap)
  have d: "distinct ?ys \<longleftrightarrow> distinct xs" using i j by (rule distinct_swap)
  have "k < length ?ys \<or> k = 0" using i by simp
  from Suc.IH [OF this] s d show ?case by (simp add: Let_def)
qed

lemma initField_forEach_other:
  "p \<notin> set ps \<Longrightarrow> initField_forEach sl mc i ps p = sl p"
proof (induction ps arbitrary: sl i)
  case Nil
  then show ?case by simp
next
  case (Cons q ps)
  have "initField_forEach sl mc i (q # ps) p
        = initField_forEach (sl(q \<mapsto> new_MineSlot (i < mc))) mc (i + 1) ps p"
    by simp
  also have "\<dots> = (sl(q \<mapsto> new_MineSlot (i < mc))) p"
    using Cons.prems by (intro Cons.IH) simp
  also have "\<dots> = sl p" using Cons.prems by simp
  finally show ?case .
qed

lemma initField_forEach_nth:
  "distinct ps \<Longrightarrow> k < length ps
   \<Longrightarrow> initField_forEach sl mc i ps (ps ! k) = Some (new_MineSlot (i + int k < mc))"
proof (induction ps arbitrary: sl i k)
  case Nil
  then show ?case by simp
next
  case (Cons q ps)
  let ?sl1 = "sl(q \<mapsto> new_MineSlot (i < mc))"
  have u: "initField_forEach sl mc i (q # ps) ((q # ps) ! k)
        = initField_forEach ?sl1 mc (i + 1) ps ((q # ps) ! k)"
    by simp
  show ?case
  proof (cases k)
    case 0
    have "q \<notin> set ps" using Cons.prems(1) by simp
    then have "initField_forEach ?sl1 mc (i + 1) ps q = ?sl1 q" by (rule initField_forEach_other)
    with u 0 show ?thesis by simp
  next
    case (Suc k')
    then have "k' < length ps" using Cons.prems(2) by simp
    moreover have "distinct ps" using Cons.prems(1) by simp
    ultimately have "initField_forEach ?sl1 mc (i + 1) ps (ps ! k')
                     = Some (new_MineSlot (i + 1 + int k' < mc))"
      by (intro Cons.IH)
    moreover have "i + 1 + int k' = i + int k" using Suc by simp
    ultimately show ?thesis using u Suc by simp
  qed
qed

lemma initField_forEach_dom: "dom (initField_forEach sl mc i ps) = dom sl \<union> set ps"
proof (induction ps arbitrary: sl i)
  case Nil
  then show ?case by simp
next
  case (Cons q ps)
  have "dom (initField_forEach sl mc i (q # ps))
        = dom (sl(q \<mapsto> new_MineSlot (i < mc))) \<union> set ps"
    by (simp only: initField_forEach.simps Cons.IH)
  also have "dom (sl(q \<mapsto> new_MineSlot (i < mc))) = insert q (dom sl)"
    by (simp only: dom_fun_upd option.distinct if_False)
  finally show ?case by simp
qed

lemma count_below: "length (filter (\<lambda>k. int k < mc) [0..<N]) = min (nat mc) N"
  by (induction N) auto

lemma initField_forEach_mines:
  assumes "distinct ps"
  shows "card {p \<in> set ps. mineAt (initField_forEach Map.empty mc 0 ps) p} = min (nat mc) (length ps)"
proof -
  let ?sl = "initField_forEach Map.empty mc 0 ps"
  have "card {p \<in> set ps. mineAt ?sl p} = length (filter (mineAt ?sl) ps)"
    using assms by (simp add: distinct_length_filter Int_def conj_commute)
  also have "filter (mineAt ?sl) ps = filter (mineAt ?sl) (map (\<lambda>k. ps ! k) [0..<length ps])"
    by (simp only: map_nth)
  also have "length \<dots> = length (filter (\<lambda>k. mineAt ?sl (ps ! k)) [0..<length ps])"
    by (simp add: filter_map comp_def)
  also have "filter (\<lambda>k. mineAt ?sl (ps ! k)) [0..<length ps]
             = filter (\<lambda>k. int k < mc) [0..<length ps]"
  proof (rule filter_cong [OF refl])
    fix k assume "k \<in> set [0..<length ps]"
    then have "k < length ps" by simp
    from initField_forEach_nth [OF assms this, of Map.empty mc 0]
    show "mineAt ?sl (ps ! k) \<longleftrightarrow> int k < mc" by (simp add: mineAt_def new_MineSlot_def)
  qed
  finally show ?thesis by (simp only: count_below)
qed

text \<open>
  The first click on a square board of at most \<open>2^32 - 1\<close> cells built with a target
  mine count, for every outcome of the shuffle: the call returns, the slots are the
  grid's, the clicked cell holds no mine, the stored counts are right and, when the
  count is not negative, exactly \<open>mineCount\<close> grid cells hold a mine.
\<close>

lemma click_square_first:
  assumes nb: "new_MineBoard n n (Count mc) = Inr b" and v: "isVaildPosition b x y"
    and small: "n * n \<le> 2 ^ 32 - 1"
  shows "\<exists>b' r. click rand b x y = (b', Inr r)
           \<and> dom (slots b') = grid b' \<and> grid b' = grid b
           \<and> \<not> mineAt (slots b') (x, y) \<and> countsCorrect b'
           \<and> (0 \<le> mc \<longrightarrow> card {p \<in> grid b'. mineAt (slots b') p} = nat mc)"
proof -
  let ?won = "\<lambda>b3 :: CountBoard. int (revealCount b3) = width b3 * height b3 - mineCount b3"
  have "\<bar>n * n\<bar> \<le> 2 ^ 53" using small by simp
  then have "js_times n n = Finite (n * n)" by (rule js_times_exact)
  with nb have b: "\<not> fieldInited b" "width b = n" "height b = n" "slots b = Map.empty"
    "mineCount b = mc" "mc < n * n" "state b = Playing"
    by (auto simp: new_MineBoard_def split: if_splits)
  have n: "0 < n" using v b(2) by (simp add: isVaildPosition_def)
  have xy: "(x, y) \<in> grid b" using v by (simp add: grid_iff)
  have gb: "grid b = {0..<n} \<times> {0..<n}" using b(2,3) by (simp add: grid_def)
  let ?cands = "filter (\<lambda>pos. pos \<noteq> (x, y)) (candidatePositions n n (n * n))"
  let ?sh = "shuffle rand (length ?cands - 1) ?cands"
  let ?P = "?sh @ [(x, y)]"
  let ?sl = "initField_forEach Map.empty mc 0 ?P"
  have dc: "distinct ?cands" using candidatePositions_square_distinct [OF n] by simp
  have sc: "set ?cands = grid b - {(x, y)}"
    using set_candidatePositions_square [OF n] gb by auto
  have "length ?cands - 1 < length ?cands \<or> length ?cands - 1 = 0" by linarith
  from shuffle_perm [OF this, of rand] dc sc
  have sh: "set ?sh = grid b - {(x, y)}" "distinct ?sh" by simp_all
  have dP: "distinct ?P" using sh by simp
  have sP: "set ?P = grid b" using sh(1) xy by auto
  have "length (candidatePositions n n (n * n)) \<le> Suc (length ?cands)"
    using candidatePositions_square_distinct [OF n] by (rule filter_neq_length)
  then have lP: "nat (n * n) \<le> length ?P"
    by (simp add: length_candidatePositions length_shuffle)
  have dsl: "dom ?sl = grid b" using sP by (simp add: initField_forEach_dom)
  have click_sl: "?sl (x, y) = Some (new_MineSlot False)"
  proof -
    have "?sl (x, y) = Some (new_MineSlot (0 + int (length ?sh) < mc))"
      by (rule initField_forEach_last)
    moreover have "nat (n * n) \<le> Suc (length ?sh)" using lP by simp
    then have "\<not> (0 + int (length ?sh) < mc)" using b(6) by linarith
    ultimately show ?thesis by simp
  qed
  obtain sl' err where i: "initNearbyMine ?sl n n = (sl', err)"
    by (cases "initNearbyMine ?sl n n")
  have "\<forall>p \<in> set (gridPositions n n). ?sl p \<noteq> None"
    unfolding set_gridPositions using dsl gb by (metis domIff)
  then have "snd (initNearbyMine_loop ?sl (gridPositions n n)) = None"
    by (rule initNearbyMine_loop_ok)
  with i have err: "err = None" by (simp add: initNearbyMine_def)
  let ?b1 = "b\<lparr>fieldInited := True, slots := sl'\<rparr>"
  have sq: "width b = height b" "width b * height b \<le> 2 ^ 32 - 1"
    using b(2,3) small by simp_all
  have if1: "initField rand b x y = (?b1, None)"
    using b(2-5) i err by (simp add: initField_square [OF b(1) v sq] Let_def)
  have g1: "grid ?b1 = grid b" by (simp add: grid_def)
  have sm: "sameMines ?sl sl'"
    using i unfolding initNearbyMine_def by (rule initNearbyMine_loop_sameMines)
  have d1: "dom (slots ?b1) = grid ?b1" using sameMines_dom [OF sm] dsl g1 by simp
  have "initNearbyMine ?sl (width ?b1) (height ?b1) = (slots ?b1, None)"
    using i err b(2,3) by simp
  moreover have "dom ?sl \<subseteq> grid ?b1" using dsl g1 by simp
  ultimately have c1: "countsCorrect ?b1" by (rule initNearbyMine_countsCorrect)
  have m1: "\<And>p. mineAt (slots ?b1) p = mineAt ?sl p" using sm by (simp add: sameMines_mineAt)
  have "\<not> mineAt ?sl (x, y)"
    using click_sl by (simp add: mineAt_def new_MineSlot_def)
  then have nm1: "\<not> mineAt (slots ?b1) (x, y)" using m1 by blast
  then obtain s1 where s1: "slots ?b1 (x, y) = Some s1" "\<not> hasMine s1"
    using d1 g1 xy by (cases "slots ?b1 (x, y)") (auto simp: mineAt_def)
  have cov1: "covered ?b1"
    unfolding covered_def set_gridPositions
  proof
    fix p assume "p \<in> {0..<width ?b1} \<times> {0..<height ?b1}"
    then have "p \<in> dom (slots ?b1)" using d1 by (simp add: grid_def)
    then show "slots ?b1 p \<noteq> None" by (simp add: domIff)
  qed
  have v1: "isVaildPosition ?b1 x y" using v by (simp add: isVaildPosition_def)
  have st1: "state ?b1 = Playing" using b(7) by simp
  from click_body_again [OF st1 v1 s1, of ?won] cov1 obtain b' r where
    cb: "click_body ?won ?b1 x y = (b', Inr r)" by blast
  then have cl: "click rand b x y = (b', Inr r)" using v if1 by (simp add: click_unfold)
  have b'_eq: "b' = fst (click_body ?won ?b1 x y)" using cb by simp
  have sc': "sameCells (slots ?b1) (slots b')" unfolding b'_eq by (rule click_body_sameCells)
  have g': "grid b' = grid ?b1" unfolding b'_eq by (rule click_body_grid)
  have sm': "sameMines (slots ?b1) (slots b')" using sc' by (rule sameCells_sameMines)
  have m': "\<And>p. mineAt (slots b') p = mineAt ?sl p"
    using sm' m1 by (simp add: sameMines_mineAt)
  have d': "dom (slots b') = grid b'" using sameMines_dom [OF sm'] d1 g' by simp
  have c': "countsCorrect b'" using c1 sc' g' by (rule countsCorrect_sameCells)
  have nm': "\<not> mineAt (slots b') (x, y)" using nm1 sm' by (simp add: sameMines_mineAt)
  have cnt: "0 \<le> mc \<longrightarrow> card {p \<in> grid b'. mineAt (slots b') p} = nat mc"
  proof
    assume "0 \<le> mc"
    then have "nat mc \<le> length ?P" using lP b(6) by linarith
    then have "min (nat mc) (length ?P) = nat mc" by simp
    moreover have "card {p \<in> set ?P. mineAt ?sl p} = min (nat mc) (length ?P)"
      using dP by (rule initField_forEach_mines)
    moreover have "{p \<in> grid b'. mineAt (slots b') p} = {p \<in> set ?P. mineAt ?sl p}"
      using g' g1 sP m' by simp
    ultimately show "card {p \<in> grid b'. mineAt (slots b') p} = nat mc" by (simp only:)
  qed
  from cl d' g' g1 nm' c' cnt show ?thesis by (intro exI [of _ b'] exI [of _ r]) simp
qed

section \<open>The constructor on a layout\<close>

lemma new_MineBoard_Layout_eq:
  fixes w h :: int and str :: string
  defines "rows \<equiv> layoutRows str"
  defines "wd \<equiv> length (hd rows)"
  obtains sl' where
    "new_MineBoard w h (Layout str)
     = Inr \<lparr>slots = sl', state = Playing, revealCount = 0,
            width = int wd, height = int (length rows), fieldInited = True,
            mineCount = int (sum_list (map (\<lambda>row. count_list (take wd row) ''x'') rows))\<rparr>"
    "dom sl' = {0..<int wd} \<times> {0..<int (length rows)}"
    "countsCorrect \<lparr>slots = sl', state = Playing, revealCount = 0,
            width = int wd, height = int (length rows), fieldInited = True,
            mineCount = int (sum_list (map (\<lambda>row. count_list (take wd row) ''x'') rows))\<rparr>"
proof -
  obtain row0 rest where rows: "rows = row0 # rest"
    using layoutRows_nonempty [of str] unfolding rows_def by (cases "layoutRows str") auto
  then have wd: "wd = length row0" by (simp add: wd_def)
  obtain sl mc where l: "layout_loop rows Map.empty 0 (layoutPositions wd (length rows)) = (sl, mc)"
    by (cases "layout_loop rows Map.empty 0 (layoutPositions wd (length rows))")
  obtain sl' err where n: "initNearbyMine sl (int wd) (int (length rows)) = (sl', err)"
    by (cases "initNearbyMine sl (int wd) (int (length rows))")
  have mc: "mc = int (sum_list (map (\<lambda>row. count_list (take wd row) ''x'') rows))"
    using layout_loop_count [of rows Map.empty 0 "layoutPositions wd (length rows)"] l
    by (simp add: layout_mines)
  have dsl: "dom sl = {0..<int wd} \<times> {0..<int (length rows)}"
    using layout_loop_dom [of rows Map.empty 0 "layoutPositions wd (length rows)"] l
    by (simp add: layoutPositions_grid)
  then have "\<forall>p \<in> set (gridPositions (int wd) (int (length rows))). sl p \<noteq> None"
    unfolding set_gridPositions by (metis domIff)
  then have "snd (initNearbyMine_loop sl (gridPositions (int wd) (int (length rows)))) = None"
    by (rule initNearbyMine_loop_ok)
  with n have err: "err = None" by (simp add: initNearbyMine_def)
  have "sameMines sl sl'"
    using n unfolding initNearbyMine_def by (rule initNearbyMine_loop_sameMines)
  then have dsl': "dom sl' = {0..<int wd} \<times> {0..<int (length rows)}"
    using dsl by (simp add: sameMines_dom)
  have "new_MineBoard w h (Layout str)
     = Inr \<lparr>slots = sl', state = Playing, revealCount = 0,
            width = int wd, height = int (length rows), fieldInited = True,
            mineCount = mc\<rparr>"
    using rows l n err wd
    by (simp add: new_MineBoard_def layoutRows_def [symmetric] rows_def [symmetric])
  moreover have "countsCorrect \<lparr>slots = sl', state = Playing, revealCount = 0,
            width = int wd, height = int (length rows), fieldInited = True, mineCount = mc\<rparr>"
  proof (rule initNearbyMine_countsCorrect)
    show "initNearbyMine sl
            (width \<lparr>slots = sl', state = Playing, revealCount = 0,
               width = int wd, height = int (length rows), fieldInited = True, mineCount = mc\<rparr>)
            (height \<lparr>slots = sl', state = Playing, revealCount = 0,
               width = int wd, height = int (length rows), fieldInited = True, mineCount = mc\<rparr>)
          = (slots \<lparr>slots = sl', state = Playing, revealCount = 0,
               width = int wd, height = int (length rows), fieldInited = True, mineCount = mc\<rparr>,
             None)"
      using n err by simp
    show "dom sl \<subseteq> grid \<lparr>slots = sl', state = Playing, revealCount = 0,
               width = int wd, height = int (length rows), fieldInited = True, mineCount = mc\<rparr>"
      using dsl by (simp add: grid_def)
  qed
  ultimately show thesis using mc dsl' that by simp
qed

text \<open>
  Claim C10, as the spec states it: the \<^verbatim>\<open>mineCount\<close> of a board built from a layout is
  the number of \<^verbatim>\<open>x\<close> tokens in the layout. The constructor takes the width from the
  first row and reads, in every row, the tokens below that width only; what a longer
  row holds beyond it is never read. On the layout of the two rows \<^verbatim>\<open>"_"\<close> and
  \<^verbatim>\<open>"x x"\<close> the width is 1, the height 2 and \<^verbatim>\<open>mineCount\<close> is 1, though the layout
  holds two \<^verbatim>\<open>x\<close> tokens.
\<close>

theorem layout_mineCount_counterexample:
  "\<exists>b. new_MineBoard 5 5 (Layout (''_'' @ [CHR 0x0A] @ ''x x'')) = Inr b
     \<and> width b = 1 \<and> height b = 2 \<and> mineCount b = 1
     \<and> count_list (tokens (''_'' @ [CHR 0x0A] @ ''x x'')) ''x'' = 2"
  by (simp add: eval_defs tokens.simps)

text \<open>
  Claim C10, amended. Construction from a layout does not fail and does not read the
  \<^verbatim>\<open>width\<close> and \<^verbatim>\<open>height\<close> arguments. The height of the board is the number of rows
  of the trimmed layout, one more than its line feeds. The width is the number of
  whitespace-separated tokens of the first row, or 1 when that row is blank (the split
  of an empty string is one empty piece). \<^verbatim>\<open>mineCount\<close> is the number of \<^verbatim>\<open>x\<close> tokens
  among the first \<open>width\<close> tokens of each row, which is the number of all \<^verbatim>\<open>x\<close> tokens
  of the rows when no row is longer than the first. The board is initialised at
  construction: \<^verbatim>\<open>fieldInited\<close> is set, the positions that hold a slot are exactly the
  grid's, every cell stores the number of its neighbours in the grid that hold a mine,
  the state is playing with nothing revealed, and \<^verbatim>\<open>initField\<close>, at any click, returns
  at once and leaves the board as it is.
\<close>

theorem new_MineBoard_layout:
  "\<exists>b. new_MineBoard w h (Layout str) = Inr b \<and> new_MineBoard w' h' (Layout str) = Inr b
     \<and> height b = 1 + int (count_list (trim str) (CHR 0x0A))
     \<and> width b = (if \<forall>c \<in> set (hd (split_nl (trim str))). isSpace c then 1
                  else int (length (tokens (hd (split_nl (trim str))))))
     \<and> width b = int (length (hd (layoutRows str)))
     \<and> height b = int (length (layoutRows str))
     \<and> mineCount b
         = int (sum_list (map (\<lambda>row. count_list (take (nat (width b)) row) ''x'') (layoutRows str)))
     \<and> ((\<forall>row \<in> set (layoutRows str). length row \<le> nat (width b)) \<longrightarrow>
           mineCount b = int (count_list (concat (layoutRows str)) ''x''))
     \<and> fieldInited b \<and> state b = Playing \<and> revealCount b = 0
     \<and> dom (slots b) = grid b \<and> covered b \<and> countsCorrect b
     \<and> (\<forall>rand x y. initField rand b x y = (b, None))"
proof -
  let ?rows = "layoutRows str"
  let ?wd = "length (hd ?rows)"
  let ?mc = "int (sum_list (map (\<lambda>row. count_list (take ?wd row) ''x'') ?rows))"
  obtain sl' where b: "new_MineBoard w h (Layout str)
     = Inr \<lparr>slots = sl', state = Playing, revealCount = 0,
            width = int ?wd, height = int (length ?rows), fieldInited = True, mineCount = ?mc\<rparr>"
    and d: "dom sl' = {0..<int ?wd} \<times> {0..<int (length ?rows)}"
    and cc: "countsCorrect \<lparr>slots = sl', state = Playing, revealCount = 0,
            width = int ?wd, height = int (length ?rows), fieldInited = True, mineCount = ?mc\<rparr>"
    by (rule new_MineBoard_Layout_eq)
  let ?b = "\<lparr>slots = sl', state = Playing, revealCount = 0,
            width = int ?wd, height = int (length ?rows), fieldInited = True, mineCount = ?mc\<rparr>"
  have b': "new_MineBoard w' h' (Layout str) = Inr ?b"
    using b by (simp add: new_MineBoard_def)
  have hgt: "height ?b = 1 + int (count_list (trim str) (CHR 0x0A))"
    by (simp add: layoutRows_def length_split_nl)
  have wdt: "width ?b = (if \<forall>c \<in> set (hd (split_nl (trim str))). isSpace c then 1
                  else int (length (tokens (hd (split_nl (trim str))))))"
    by (simp add: hd_layoutRows split_ws_trim tokens_trim)
  have rect: "(\<forall>row \<in> set ?rows. length row \<le> nat (width ?b)) \<longrightarrow>
           mineCount ?b = int (count_list (concat ?rows) ''x'')"
  proof
    assume "\<forall>row \<in> set ?rows. length row \<le> nat (width ?b)"
    then have "map (\<lambda>row. count_list (take ?wd row) ''x'') ?rows
               = map (\<lambda>row. count_list row ''x'') ?rows"
      by (intro map_cong) simp_all
    then have "sum_list (map (\<lambda>row. count_list (take ?wd row) ''x'') ?rows)
               = sum_list (map (\<lambda>row. count_list row ''x'') ?rows)"
      by (rule arg_cong)
    then show "mineCount ?b = int (count_list (concat ?rows) ''x'')"
      unfolding count_list_concat by simp
  qed
  have g: "dom (slots ?b) = grid ?b" using d by (simp add: grid_def)
  have cov: "covered ?b"
    unfolding covered_def set_gridPositions
  proof
    fix p assume "p \<in> {0..<width ?b} \<times> {0..<height ?b}"
    then have "p \<in> dom sl'" using d by simp
    then show "slots ?b p \<noteq> None" by (simp add: domIff)
  qed
  have ini: "\<forall>rand x y. initField rand ?b x y = (?b, None)" by (simp add: initField_def)
  have w2: "width ?b = int (length (hd (layoutRows str)))"
    and h2: "height ?b = int (length (layoutRows str))"
    and mc: "mineCount ?b
         = int (sum_list (map (\<lambda>row. count_list (take (nat (width ?b)) row) ''x'') (layoutRows str)))"
    and fi: "fieldInited ?b" and st: "state ?b = Playing" and rc: "revealCount ?b = 0"
    by simp_all
  show ?thesis
    by (rule exI [of _ ?b]) (intro conjI; fact)
qed

theorem new_MineBoard_layout_witness:
  "\<exists>b. new_MineBoard 0 0 (Layout (''  _ x x'' @ [CHR 0x0A] @ '' _ _ _  '')) = Inr b
     \<and> width b = 3 \<and> height b = 2 \<and> mineCount b = 2
     \<and> fieldInited b \<and> covered b \<and> dom (slots b) = grid b
     \<and> initField (\<lambda>i. 0) b 1 1 = (b, None)"
proof -
  let ?str = "''  _ x x'' @ [CHR 0x0A] @ '' _ _ _  ''"
  obtain b where b: "new_MineBoard 0 0 (Layout ?str) = Inr b"
    and h: "height b = 1 + int (count_list (trim ?str) (CHR 0x0A))"
    and w: "width b = (if \<forall>c \<in> set (hd (split_nl (trim ?str))). isSpace c then 1
                       else int (length (tokens (hd (split_nl (trim ?str))))))"
    and m: "(\<forall>row \<in> set (layoutRows ?str). length row \<le> nat (width b)) \<longrightarrow>
              mineCount b = int (count_list (concat (layoutRows ?str)) ''x'')"
    and r: "fieldInited b" "covered b" "dom (slots b) = grid b"
      "\<forall>rand x y. initField rand b x y = (b, None)"
    using new_MineBoard_layout [of 0 0 ?str 0 0] by blast
  have t: "trim ?str = ''_ x x'' @ [CHR 0x0A] @ '' _ _ _''"
    by (simp add: trim_def isSpace_def)
  have rows: "layoutRows ?str = [[''_'', ''x'', ''x''], [''_'', ''_'', ''_'']]"
    by (simp add: layoutRows_def trim_def isSpace_def)
  have h2: "height b = 2" using h unfolding t by simp
  have w3: "width b = 3" using w unfolding t by (simp add: tokens.simps isSpace_def)
  have m2: "mineCount b = 2" using m unfolding rows w3 by simp
  from b h2 w3 m2 r show ?thesis by blast
qed

section \<open>Where the program leaves the spec\<close>

text \<open>
  Claim C1 says that a board whose state is dead or win answers every further click with
  the same state and changes nothing. \<^verbatim>\<open>click\<close> tests \<^verbatim>\<open>hasMine\<close> and writes
  \<^verbatim>\<open>state = "dead"\<close> before it tests whether the game is over, so a click on a mine
  turns a won board into a dead one. On the layout \<^verbatim>\<open>"_ x"\<close>: \<^verbatim>\<open>click(0, 0)\<close> reveals the
  one safe cell and wins; \<^verbatim>\<open>click(1, 0)\<close> then returns dead, and the state is dead.
  (A dead board, and a won board clicked on a cell without a mine, are left as they
  are: \<open>click_finished\<close>, \<open>click_r_finished\<close>.)
\<close>

theorem click_mine_after_win:
  "\<exists>b0 b1 b2.
     new_MineBoard 5 5 (Layout ''_ x'') = Inr b0
     \<and> click rand b0 0 0
       = (b1, Inr \<lparr>res_state = Win, reveals = [\<lparr>position = (0, 0), ev_nearbyMine = 1\<rparr>]\<rparr>)
     \<and> state b1 = Win
     \<and> isVaildPosition b1 1 0
     \<and> click rand b1 1 0 = (b2, Inr \<lparr>res_state = Dead, reveals = []\<rparr>)
     \<and> state b2 = Dead"
  by (simp add: eval_defs)

text \<open>
  Claim C2 says that the state becomes win exactly when all cells without a mine have
  been revealed. \<^verbatim>\<open>click\<close> does not look at \<^verbatim>\<open>reveal\<close> of the clicked cell, so a second
  click on a revealed cell counts it again. On the layout \<^verbatim>\<open>"_ x _"\<close> (two safe cells,
  one mine between them) two clicks on \<open>(0, 0)\<close> bring \<^verbatim>\<open>revealCount\<close> to
  \<open>2 = 3 * 1 - 1\<close> and the state to win, while the safe cell \<open>(2, 0)\<close> is not revealed.
  (The test on the counter is the claim's, \<open>click_win_iff\<close>; what the counter counts is
  not.)
\<close>

theorem click_twice_wins_early:
  "\<exists>b0 b1 b2 s.
     new_MineBoard 5 5 (Layout ''_ x _'') = Inr b0
     \<and> click rand b0 0 0
       = (b1, Inr \<lparr>res_state = Playing, reveals = [\<lparr>position = (0, 0), ev_nearbyMine = 1\<rparr>]\<rparr>)
     \<and> click rand b1 0 0
       = (b2, Inr \<lparr>res_state = Win, reveals = [\<lparr>position = (0, 0), ev_nearbyMine = 1\<rparr>]\<rparr>)
     \<and> state b2 = Win
     \<and> int (revealCount b2) = width b2 * height b2 - mineCount b2
     \<and> slots b2 (2, 0) = Some s \<and> \<not> hasMine s \<and> \<not> reveal s"
  by (simp add: eval_defs)

text \<open>
  Claim C4 says that after the first click on a board with a target mine count, exactly
  \<open>mineCount\<close> grid cells hold a mine, the clicked cell holds none, and the slots are
  the grid's. \<^verbatim>\<open>initField\<close> builds its candidates as
  \<^verbatim>\<open>`${Math.floor(index / this.width)}-${index % this.height}`\<close>, which are the grid's
  positions only when \<open>width = height\<close>. On \<^verbatim>\<open>new MineBoard(2, 1, 1)\<close> both candidates
  are \<open>(0, 0)\<close>. For every outcome of the shuffle:
  \<^item> \<^verbatim>\<open>click(0, 0)\<close> puts the mine on the clicked cell, leaves the grid position
    \<open>(1, 0)\<close> without a slot and ends with a \<^verbatim>\<open>TypeError\<close>;
  \<^item> \<^verbatim>\<open>click(1, 0)\<close> returns, and no cell holds a mine though \<open>mineCount = 1\<close>.

  (On a square board of at most \<open>2^32 - 1\<close> cells the claim holds:
  \<open>click_square_first\<close>.)
\<close>

theorem initField_not_square:
  "\<exists>b0 b1 b2 r s s0 s1.
     new_MineBoard 2 1 (Count 1) = Inr b0 \<and> mineCount b0 = 1
     \<and> isVaildPosition b0 0 0 \<and> isVaildPosition b0 1 0
     \<and> click rand b0 0 0 = (b1, Inl TypeError)
     \<and> slots b1 (0, 0) = Some s \<and> hasMine s \<and> slots b1 (1, 0) = None
     \<and> click rand b0 1 0 = (b2, Inr r) \<and> mineCount b2 = 1
     \<and> slots b2 (0, 0) = Some s0 \<and> \<not> hasMine s0
     \<and> slots b2 (1, 0) = Some s1 \<and> \<not> hasMine s1"
  by (simp add: eval_defs shuffle_same2 del: shuffle.simps(2))

text \<open>
  Claim C7 says that after initialisation the stored \<^verbatim>\<open>nearbyMine\<close> of every grid cell
  is the number of its neighbours inside the grid that hold a mine. \<^verbatim>\<open>nearByMine\<close>
  counts every neighbouring position that holds a slot with a mine, and the candidates
  of \<^verbatim>\<open>initField\<close> (see C4) can lie outside the grid. On \<^verbatim>\<open>new MineBoard(1, 2, 1)\<close>,
  \<^verbatim>\<open>click(0, 1)\<close>, when the shuffle draws \<open>0\<close>: the candidates are \<open>(0, 0)\<close> and
  \<open>(1, 1)\<close>, the mine goes to \<open>(1, 1)\<close>, outside the grid, and both grid cells store
  \<open>nearbyMine = 1\<close> though no grid cell holds a mine. (Where the slots are the grid's,
  the stored counts are right and a click keeps them: \<open>initNearbyMine_countsCorrect\<close>,
  \<open>click_countsCorrect\<close>; that is so after the first click on a board built with a
  predicate, \<open>click_r_first_countsCorrect\<close>, on a square board of at most \<open>2^32 - 1\<close>
  cells with a mine count, \<open>click_square_first\<close>, and on a board built from a layout.)
\<close>

theorem nearbyMine_counts_outside_grid:
  "\<exists>b0 b1 r s00 s01 s11.
     new_MineBoard 1 2 (Count 1) = Inr b0 \<and> isVaildPosition b0 0 1
     \<and> click (\<lambda>i. 0) b0 0 1 = (b1, Inr r)
     \<and> grid b1 = {(0, 0), (0, 1)}
     \<and> slots b1 (0, 0) = Some s00 \<and> slots b1 (0, 1) = Some s01
     \<and> \<not> hasMine s00 \<and> \<not> hasMine s01
     \<and> nearbyMine s00 = 1 \<and> nearbyMine s01 = 1
     \<and> slots b1 (1, 1) = Some s11 \<and> hasMine s11 \<and> (1, 1) \<notin> grid b1"
  by (simp add: eval_defs grid_def) auto

end
